theory Spec2Isabelle
  imports Main "HOL-Library.FSet" "HOL-Library.Multiset"
begin

section \<open>The cutout daemon of askap\_cutout\_daemon.py\<close>

text \<open>
  The daemon keeps five mutable containers (\<open>produce_all_cutouts\<close>, lines 202 to 206):
  the list \<open>remaining_array_ids\<close>, the list \<open>active_ms\<close> of measurement sets in use (one
  entry per active job that uses it), and the sets \<open>active_ids\<close>, \<open>completed_srcs\<close> and
  \<open>failed_srcs\<close>. They are threaded through \<open>register_active\<close>, \<open>mark_comp_done\<close> and
  \<open>job_loop\<close>, which mutate them in place; here each function takes the record of the five
  and returns the updated record. A Python \<open>set\<close> is a finite set (\<open>fset\<close>); iterating over
  one visits its elements once each, in an order the program never depends on, for which
  the sorted order stands in.

  Every exception the source can raise is a value of \<open>error\<close>, and a function that may
  raise returns \<open>error + result\<close>. The calls to \<open>print\<close> and the flag \<open>rate_limited\<close>,
  which only decides whether one of them is made, are left out.
\<close>

subsection \<open>Exceptions and Python's container operations\<close>

datatype error =
    IndexError
  | KeyError
  | ValueError
  | TypeError
  | ZeroDivisionError
  | OverflowError
  | OSError
  | CommandFailedError
  | FailedToComplete int nat
    \<comment> \<open>line 228: \<open>Exception(msg)\<close>; the message carries the loop count and \<open>len(remaining_array_ids)\<close>\<close>

definition list_index :: "'a list \<Rightarrow> int \<Rightarrow> error + 'a" where
  \<comment> \<open>\<open>xs[i]\<close>: an index below zero counts from the end of the list\<close>
  "list_index xs i =
     (if 0 \<le> i \<and> i < int (length xs) then Inr (xs ! nat i)
      else if i < 0 \<and> - int (length xs) \<le> i then Inr (xs ! nat (int (length xs) + i))
      else Inl IndexError)"

definition dict_lookup :: "('k \<rightharpoonup> 'v) \<Rightarrow> 'k \<Rightarrow> error + 'v" where
  \<comment> \<open>\<open>d[k]\<close>\<close>
  "dict_lookup d k = (case d k of Some v \<Rightarrow> Inr v | None \<Rightarrow> Inl KeyError)"

definition list_remove :: "'a \<Rightarrow> 'a list \<Rightarrow> error + 'a list" where
  \<comment> \<open>\<open>xs.remove(x)\<close>: drops the first occurrence, raises when there is none\<close>
  "list_remove x xs = (if x \<in> set xs then Inr (remove1 x xs) else Inl ValueError)"

definition set_and_list :: "'a fset \<Rightarrow> 'a list \<Rightarrow> error + 'a fset" where
  \<comment> \<open>\<open>a & b\<close> with \<open>a\<close> a \<open>set\<close> and \<open>b\<close> a \<open>list\<close>: \<open>set.__and__\<close> accepts only a set or a
      frozenset, and a list has no reflected \<open>__rand__\<close>, so the operator raises\<close>
  "set_and_list a b = Inl TypeError"

subsection \<open>State, inputs and the outside world\<close>

record 'ms sched =
  active_ids :: "int fset"
  active_ms :: "'ms list"
  remaining_array_ids :: "int list"
  completed_srcs :: "string fset"
  failed_srcs :: "string fset"

text \<open>The arguments that no function changes.\<close>

record 'ms config =
  targets :: "string list"
  src_beam_map :: "string \<rightharpoonup> 'ms fset"
  concurrency_limit :: int
  min_concurrency_limit :: int

text \<open>
  What one cycle sees of the outside world: whether the files
  \<open>status_folder/id.COMPLETED\<close> and \<open>status_folder/id.FAILED\<close> exist (\<open>os.path.isfile\<close>),
  how \<open>subprocess.call\<close> ends for the start command of a job, and how \<open>time.sleep\<close>
  ends for a length. Each of the first three is asked at most once for an id in a cycle,
  and the last at most once in a cycle.
\<close>

datatype call_result = Retcode int | CallOSError

text \<open>
  \<open>time.sleep\<close> converts the length to the interpreter's time type, refuses a negative
  length and then makes the system call. Whether the length fits the time type, and
  whether the system call returns or fails, is the platform's business.
\<close>

datatype sleep_result = Returns | RaisesOverflowError | RaisesOSError

record env =
  completed_file :: "int \<Rightarrow> bool"
  failed_file :: "int \<Rightarrow> bool"
  subprocess_call :: "int \<Rightarrow> call_result"
  time_sleep :: "int \<Rightarrow> sleep_result"

definition run_os_cmd :: "env \<Rightarrow> int \<Rightarrow> error + unit" where
  \<comment> \<open>lines 60 to 81 with \<open>failOnErr=True\<close>: a non-zero return code raises
      \<open>CommandFailedError\<close>; the handler of \<open>OSError\<close> adds the exception to a \<open>str\<close>,
      which raises \<open>TypeError\<close>\<close>
  "run_os_cmd ev array_id =
     (case subprocess_call ev array_id of
        Retcode retcode \<Rightarrow> if retcode \<noteq> 0 then Inl CommandFailedError else Inr ()
      | CallOSError \<Rightarrow> Inl TypeError)"

definition component_ms :: "'ms config \<Rightarrow> int \<Rightarrow> error + 'ms fset" where
  \<comment> \<open>\<open>src_beam_map[targets[array_id-1]]\<close>\<close>
  "component_ms cfg array_id =
     (case list_index (targets cfg) (array_id - 1) of
        Inl e \<Rightarrow> Inl e
      | Inr comp_name \<Rightarrow> dict_lookup (src_beam_map cfg) comp_name)"

definition add_job :: "int \<Rightarrow> 'ms::linorder fset \<Rightarrow> 'ms sched \<Rightarrow> 'ms sched" where
  \<comment> \<open>lines 118 to 120 and 181 to 183: \<open>for ms in tgt_ms: active_ms.append(ms)\<close>, then
      \<open>active_ids.add(array_id)\<close>\<close>
  "add_job array_id tgt_ms s =
     s\<lparr>active_ms := active_ms s @ sorted_list_of_fset tgt_ms,
       active_ids := finsert array_id (active_ids s)\<rparr>"

subsection \<open>register\_active (lines 110 to 124)\<close>

fun register_each :: "'ms::linorder config \<Rightarrow> 'ms sched \<Rightarrow> int list \<Rightarrow> error + 'ms sched" where
  "register_each cfg s [] = Inr s"
| "register_each cfg s (array_id # rest) =
     (case component_ms cfg array_id of
        Inl e \<Rightarrow> Inl e
      | Inr tgt_ms \<Rightarrow> register_each cfg (add_job array_id tgt_ms s) rest)"

definition register_active ::
  "'ms::linorder config \<Rightarrow> 'ms sched \<Rightarrow> int list option \<Rightarrow> error + 'ms sched \<times> int" where
  \<comment> \<open>\<open>not pre_active_jobs\<close> holds for \<open>None\<close> and for the empty list\<close>
  "register_active cfg s pre_active_jobs =
     (case pre_active_jobs of
        None \<Rightarrow> Inr (s, 0)
      | Some [] \<Rightarrow> Inr (s, 0)
      | Some (a # as) \<Rightarrow>
          (case register_each cfg s (a # as) of
             Inl e \<Rightarrow> Inl e
           | Inr s' \<Rightarrow> Inr (s', int (fcard (active_ids s')))))"

subsection \<open>mark\_comp\_done (lines 127 to 130)\<close>

fun remove_each :: "'ms list \<Rightarrow> 'ms list \<Rightarrow> error + 'ms list" where
  \<comment> \<open>\<open>for ms in tgt_ms: active_ms.remove(ms)\<close>\<close>
  "remove_each [] held = Inr held"
| "remove_each (ms # rest) held =
     (case list_remove ms held of
        Inl e \<Rightarrow> Inl e
      | Inr held' \<Rightarrow> remove_each rest held')"

definition mark_comp_done :: "int \<Rightarrow> 'ms::linorder fset \<Rightarrow> 'ms sched \<Rightarrow> error + 'ms sched" where
  "mark_comp_done array_id tgt_ms s =
     (if array_id |\<notin>| active_ids s then Inl KeyError
      else
        (case remove_each (sorted_list_of_fset tgt_ms) (active_ms s) of
           Inl e \<Rightarrow> Inl e
         | Inr held' \<Rightarrow>
             Inr (s\<lparr>active_ids := active_ids s |-| {|array_id|}, active_ms := held'\<rparr>)))"

subsection \<open>job\_loop (lines 133 to 197)\<close>

text \<open>
  The body of the first loop (lines 140 to 163) for one id. The branches for a
  \<open>COMPLETED\<close> and for a \<open>FAILED\<close> file differ in the set the name goes to; \<open>release\<close> is
  their common first half.
\<close>

definition release :: "'ms::linorder config \<Rightarrow> 'ms sched \<Rightarrow> int \<Rightarrow> string \<Rightarrow> error + 'ms sched" where
  "release cfg s array_id comp_name =
     (if array_id |\<in>| active_ids s then
        (case dict_lookup (src_beam_map cfg) comp_name of
           Inl e \<Rightarrow> Inl e
         | Inr tgt_ms \<Rightarrow> mark_comp_done array_id tgt_ms s)
      else Inr s)"

definition scan_completed_step ::
  "'ms::linorder config \<Rightarrow> env \<Rightarrow> 'ms sched \<Rightarrow> int \<Rightarrow> error + 'ms sched" where
  "scan_completed_step cfg ev s array_id =
     (case list_index (targets cfg) (array_id - 1) of
        Inl e \<Rightarrow> Inl e
      | Inr comp_name \<Rightarrow>
          if comp_name |\<in>| completed_srcs s \<or> comp_name |\<in>| failed_srcs s then Inr s
          else if completed_file ev array_id then
            (case release cfg s array_id comp_name of
               Inl e \<Rightarrow> Inl e
             | Inr s1 \<Rightarrow>
                 (case list_remove array_id (remaining_array_ids s1) of
                    Inl e \<Rightarrow> Inl e
                  | Inr ids \<Rightarrow>
                      Inr (s1\<lparr>completed_srcs := finsert comp_name (completed_srcs s1),
                              remaining_array_ids := ids\<rparr>)))
          else if failed_file ev array_id then
            (case release cfg s array_id comp_name of
               Inl e \<Rightarrow> Inl e
             | Inr s1 \<Rightarrow>
                 (case list_remove array_id (remaining_array_ids s1) of
                    Inl e \<Rightarrow> Inl e
                  | Inr ids \<Rightarrow>
                      Inr (s1\<lparr>failed_srcs := finsert comp_name (failed_srcs s1),
                              remaining_array_ids := ids\<rparr>)))
          else Inr s)"

fun scan_completed ::
  "'ms::linorder config \<Rightarrow> env \<Rightarrow> 'ms sched \<Rightarrow> int list \<Rightarrow> error + 'ms sched" where
  \<comment> \<open>the last argument is what is left of \<open>ids_to_scan\<close>\<close>
  "scan_completed cfg ev s [] = Inr s"
| "scan_completed cfg ev s (array_id # rest) =
     (case scan_completed_step cfg ev s array_id of
        Inl e \<Rightarrow> Inl e
      | Inr s' \<Rightarrow> scan_completed cfg ev s' rest)"

text \<open>
  Line 176, \<open>len(active_ids) > min_concurrency_limit and tgt_ms & active_ms\<close>: the right
  operand is evaluated only when the left one holds, and the test passes when the
  intersection is not empty. \<open>tgt_ms\<close> is a set (line 103) and \<open>active_ms\<close> a list
  (line 203).
\<close>

definition conflict :: "'ms config \<Rightarrow> 'ms sched \<Rightarrow> 'ms fset \<Rightarrow> error + bool" where
  "conflict cfg s tgt_ms =
     (if int (fcard (active_ids s)) > min_concurrency_limit cfg then
        (case set_and_list tgt_ms (active_ms s) of
           Inl e \<Rightarrow> Inl e
         | Inr common \<Rightarrow> Inr (common \<noteq> {||}))
      else Inr False)"

text \<open>The body of the second loop (lines 167 to 196) for one id.\<close>

definition scan_start_step ::
  "'ms::linorder config \<Rightarrow> env \<Rightarrow> 'ms sched \<Rightarrow> int \<Rightarrow> error + 'ms sched" where
  "scan_start_step cfg ev s array_id =
     (if array_id |\<in>| active_ids s then Inr s
      else
        (case list_index (targets cfg) (array_id - 1) of
           Inl e \<Rightarrow> Inl e
         | Inr comp_name \<Rightarrow>
             if comp_name |\<in>| completed_srcs s then Inr s
             else
               (case dict_lookup (src_beam_map cfg) comp_name of
                  Inl e \<Rightarrow> Inl e
                | Inr tgt_ms \<Rightarrow>
                    (case conflict cfg s tgt_ms of
                       Inl e \<Rightarrow> Inl e
                     | Inr True \<Rightarrow> Inr s
                     | Inr False \<Rightarrow>
                         if int (fcard (active_ids s)) < concurrency_limit cfg then
                           (let s' = add_job array_id tgt_ms s
                            in case run_os_cmd ev array_id of
                                 Inl e \<Rightarrow> Inl e
                               | Inr _ \<Rightarrow> Inr s')
                         else Inr s))))"

fun scan_start ::
  "'ms::linorder config \<Rightarrow> env \<Rightarrow> 'ms sched \<Rightarrow> int list \<Rightarrow> error + 'ms sched" where
  "scan_start cfg ev s [] = Inr s"
| "scan_start cfg ev s (array_id # rest) =
     (case scan_start_step cfg ev s array_id of
        Inl e \<Rightarrow> Inl e
      | Inr s' \<Rightarrow> scan_start cfg ev s' rest)"

definition job_loop :: "'ms::linorder config \<Rightarrow> env \<Rightarrow> 'ms sched \<Rightarrow> error + 'ms sched \<times> int" where
  "job_loop cfg ev s =
     (case scan_completed cfg ev s (remaining_array_ids s) of
        Inl e \<Rightarrow> Inl e
      | Inr s1 \<Rightarrow>
          (case scan_start cfg ev s1 (remaining_array_ids s1) of
             Inl e \<Rightarrow> Inl e
           | Inr s2 \<Rightarrow> Inr (s2, int (fcard (active_ids s2)))))"

subsection \<open>produce\_all\_cutouts (lines 200 to 231)\<close>

definition initial :: "'ms config \<Rightarrow> 'ms sched" where
  \<comment> \<open>lines 202 to 206\<close>
  "initial cfg =
     \<lparr>active_ids = {||}, active_ms = [],
      remaining_array_ids = [1 .. int (length (targets cfg))],
      completed_srcs = {||}, failed_srcs = {||}\<rparr>"

definition sleep :: "env \<Rightarrow> int \<Rightarrow> error + unit" where
  \<comment> \<open>line 222, \<open>time.sleep(delay)\<close>\<close>
  "sleep ev delay =
     (if time_sleep ev delay = RaisesOverflowError then Inl OverflowError
      else if delay < 0 then Inl ValueError
      else if time_sleep ev delay = RaisesOSError then Inl OSError
      else Inr ())"

text \<open>
  The \<open>while\<close> loop of lines 213 to 222. \<open>envs i\<close> is the outside world as loop number
  \<open>i\<close> finds it. The result is the state, the loop count \<open>i\<close> and \<open>total_concurrency\<close>.
\<close>

function while_loop ::
  "'ms::linorder config \<Rightarrow> (int \<Rightarrow> env) \<Rightarrow> int \<Rightarrow> int \<Rightarrow> int \<Rightarrow> int \<Rightarrow> 'ms sched
     \<Rightarrow> error + 'ms sched \<times> int \<times> int" where
  "while_loop cfg envs delay max_loops i total_concurrency s =
     (if length (remaining_array_ids s) > 0 \<and> i < max_loops then
        (case job_loop cfg (envs (i + 1)) s of
           Inl e \<Rightarrow> Inl e
         | Inr (s', n) \<Rightarrow>
             (case (if length (remaining_array_ids s') > 0 then sleep (envs (i + 1)) delay
                    else Inr ()) of
                Inl e \<Rightarrow> Inl e
              | Inr _ \<Rightarrow> while_loop cfg envs delay max_loops (i + 1) (total_concurrency + n) s'))
      else Inr (s, i, total_concurrency))"
  by pat_completeness auto
termination
  by (relation "measure (\<lambda>(cfg, envs, delay, max_loops, i, total_concurrency, s). nat (max_loops - i))")
     auto

declare while_loop.simps [simp del]

definition produce_all_cutouts ::
  "'ms::linorder config \<Rightarrow> (int \<Rightarrow> env) \<Rightarrow> int \<Rightarrow> int list option \<Rightarrow> int
     \<Rightarrow> error + 'ms sched \<times> int \<times> int" where
  \<comment> \<open>the last line divides \<open>total_concurrency\<close> by the loop count to print the average\<close>
  "produce_all_cutouts cfg envs delay pre_active_jobs max_loops =
     (case register_active cfg (initial cfg) pre_active_jobs of
        Inl e \<Rightarrow> Inl e
      | Inr (s0, n0) \<Rightarrow>
          (case while_loop cfg envs delay max_loops 0 (0 + n0) s0 of
             Inl e \<Rightarrow> Inl e
           | Inr (s, i, total_concurrency) \<Rightarrow>
               if length (remaining_array_ids s) > 0 then
                 Inl (FailedToComplete i (length (remaining_array_ids s)))
               else if i = 0 then Inl ZeroDivisionError
               else Inr (s, i, total_concurrency)))"

subsection \<open>Observation points and the occupancy of the measurement sets\<close>

text \<open>
  The states a run of \<open>produce_all_cutouts\<close> passes through: the one \<open>register_active\<close>
  leaves (loop count 0), and the one each call of \<open>job_loop\<close> leaves. A further loop is
  entered when ids remain, the loop count is below \<open>max_loops\<close>, and the \<open>sleep\<close> that
  ended the loop before did not raise.
\<close>

inductive observation ::
  "'ms::linorder config \<Rightarrow> (int \<Rightarrow> env) \<Rightarrow> int \<Rightarrow> int list option \<Rightarrow> int
     \<Rightarrow> int \<Rightarrow> 'ms sched \<Rightarrow> bool"
  for cfg envs delay pre_active_jobs max_loops where
  registered:
    "register_active cfg (initial cfg) pre_active_jobs = Inr (s0, n0)
     \<Longrightarrow> observation cfg envs delay pre_active_jobs max_loops 0 s0"
| looped:
    "observation cfg envs delay pre_active_jobs max_loops i s
     \<Longrightarrow> i = 0 \<or> sleep (envs i) delay = Inr ()
     \<Longrightarrow> length (remaining_array_ids s) > 0
     \<Longrightarrow> i < max_loops
     \<Longrightarrow> job_loop cfg (envs (i + 1)) s = Inr (s', n)
     \<Longrightarrow> observation cfg envs delay pre_active_jobs max_loops (i + 1) s'"

definition ms_of :: "'ms config \<Rightarrow> int \<Rightarrow> 'ms fset" where
  \<comment> \<open>the measurement sets of a job, none when the look-up raises\<close>
  "ms_of cfg array_id = (case component_ms cfg array_id of Inr tgt_ms \<Rightarrow> tgt_ms | Inl e \<Rightarrow> {||})"

definition held_by :: "'ms config \<Rightarrow> int fset \<Rightarrow> 'ms multiset" where
  \<comment> \<open>the measurement sets of the jobs of \<open>A\<close>, one used by \<open>k\<close> of them counted \<open>k\<close> times\<close>
  "held_by cfg A = (\<Sum>array_id \<in> fset A. mset_set (fset (ms_of cfg array_id)))"

subsection \<open>Example inputs\<close>

text \<open>
  Three components, of which \<open>A\<close> and \<open>B\<close> share measurement set 1; no status file
  appears, every job starts, and a sleep of 30 seconds returns.
\<close>

definition abc :: "nat config" where
  "abc = \<lparr>targets = [''A'', ''B'', ''C''],
          src_beam_map = [''A'' \<mapsto> {|1|}, ''B'' \<mapsto> {|1|}, ''C'' \<mapsto> {|2|}],
          concurrency_limit = 3, min_concurrency_limit = 1\<rparr>"

definition quiet :: env where
  \<comment> \<open>\<open>time.sleep\<close> as CPython 3.11 has it on 64-bit Linux, where the time type counts
      nanoseconds in 64 bits\<close>
  "quiet = \<lparr>completed_file = (\<lambda>array_id. False), failed_file = (\<lambda>array_id. False),
            subprocess_call = (\<lambda>array_id. Retcode 0),
            time_sleep = (\<lambda>secs. if secs < - 9223372036 \<or> 9223372036 < secs
                                 then RaisesOverflowError
                               else if secs = 9223372036 then RaisesOSError
                               else Returns)\<rparr>"

definition a_running :: "nat sched" where
  \<comment> \<open>job 1 (\<open>A\<close>) is active and holds measurement set 1\<close>
  "a_running = \<lparr>active_ids = {|1|}, active_ms = [1], remaining_array_ids = [1, 2, 3],
                completed_srcs = {||}, failed_srcs = {||}\<rparr>"

definition always_quiet :: "int \<Rightarrow> env" where
  \<comment> \<open>the same in every loop\<close>
  "always_quiet i = quiet"

definition two_at_most :: "nat config" where
  "two_at_most = abc\<lparr>concurrency_limit := 2, min_concurrency_limit := 2\<rparr>"

definition one_at_a_time :: "nat config" where
  "one_at_a_time = abc\<lparr>concurrency_limit := 1\<rparr>"

definition a_completed :: env where
  \<comment> \<open>the file \<open>1.COMPLETED\<close> is there\<close>
  "a_completed = quiet\<lparr>completed_file := (\<lambda>array_id. array_id = 1)\<rparr>"

definition b_failed :: env where
  \<comment> \<open>the file \<open>2.FAILED\<close> is there\<close>
  "b_failed = quiet\<lparr>failed_file := (\<lambda>array_id. array_id = 2)\<rparr>"

definition ab_running :: "nat sched" where
  "ab_running = \<lparr>active_ids = {|1, 2|}, active_ms = [1, 1], remaining_array_ids = [1, 2, 3],
                 completed_srcs = {||}, failed_srcs = {||}\<rparr>"

definition c_running :: "nat sched" where
  "c_running = \<lparr>active_ids = {|3|}, active_ms = [2], remaining_array_ids = [1, 2, 3],
                completed_srcs = {||}, failed_srcs = {||}\<rparr>"

definition ac_running :: "nat sched" where
  "ac_running = \<lparr>active_ids = {|1, 3|}, active_ms = [2, 1], remaining_array_ids = [1, 2, 3],
                 completed_srcs = {||}, failed_srcs = {||}\<rparr>"

definition ac_registered :: "nat sched" where
  \<comment> \<open>jobs 1 and 3 registered as already active\<close>
  "ac_registered = \<lparr>active_ids = {|1, 3|}, active_ms = [1, 2], remaining_array_ids = [1, 2, 3],
                    completed_srcs = {||}, failed_srcs = {||}\<rparr>"

definition b_running :: "nat sched" where
  \<comment> \<open>\<open>A\<close> has completed and job 2 (\<open>B\<close>) holds measurement set 1\<close>
  "b_running = \<lparr>active_ids = {|2|}, active_ms = [1], remaining_array_ids = [2, 3],
                completed_srcs = {|''A''|}, failed_srcs = {||}\<rparr>"

subsection \<open>An abbreviation for the proofs\<close>

text \<open>
  What both branches of the first loop do once the job's measurement sets are released
  (lines 151 and 152 for a \<open>COMPLETED\<close> file, 161 and 162 for a \<open>FAILED\<close> one).
\<close>

definition retire :: "bool \<Rightarrow> string \<Rightarrow> int \<Rightarrow> 'ms sched \<Rightarrow> 'ms sched" where
  "retire ok comp_name array_id s =
     (if ok then s\<lparr>completed_srcs := finsert comp_name (completed_srcs s),
                  remaining_array_ids := remove1 array_id (remaining_array_ids s)\<rparr>
      else s\<lparr>failed_srcs := finsert comp_name (failed_srcs s),
             remaining_array_ids := remove1 array_id (remaining_array_ids s)\<rparr>)"

section \<open>Properties\<close>

subsection \<open>Lists, sets and multisets\<close>

lemma mset_sorted_list_of_fset: "mset (sorted_list_of_fset A) = mset_set (fset A)"
  by (simp add: sorted_list_of_fset.rep_eq flip: sorted_list_of_mset_set)

lemma length_sorted_list_of_fset: "length (sorted_list_of_fset A) = fcard A"
  by (simp add: sorted_list_of_fset.rep_eq fcard.rep_eq)

lemma remove_each_Inr:
  "remove_each xs held = Inr held' \<Longrightarrow> mset xs \<subseteq># mset held \<and> mset held' = mset held - mset xs"
proof (induction xs arbitrary: held)
  case Nil
  then show ?case by simp
next
  case (Cons x xs)
  from Cons.prems have x: "x \<in> set held" and r: "remove_each xs (remove1 x held) = Inr held'"
    by (auto simp: list_remove_def split: if_splits)
  from Cons.IH [OF r] have "mset xs \<subseteq># mset held - {#x#}" and "mset held' = mset held - {#x#} - mset xs"
    by simp_all
  with x show ?case
    by (simp add: insert_subset_eq_iff)
qed

lemma remove_each_succeeds:
  "mset xs \<subseteq># mset held \<Longrightarrow> \<exists>held'. remove_each xs held = Inr held'"
proof (induction xs arbitrary: held)
  case Nil
  then show ?case by simp
next
  case (Cons x xs)
  then have x: "x \<in> set held" and "mset xs \<subseteq># mset (remove1 x held)"
    by (auto simp: insert_subset_eq_iff)
  with Cons.IH show ?case by (simp add: list_remove_def)
qed

lemma mset_diff_mono: "A \<subseteq># B \<Longrightarrow> A - C \<subseteq># B - C"
  by (rule mset_subset_eqI) (simp add: mset_subset_eq_count diff_le_mono)

subsection \<open>What one pass through a loop body can do\<close>

lemma scan_start_step_Inr:
  assumes "scan_start_step cfg ev s array_id = Inr s'"
  shows "s' = s \<or>
    (array_id |\<notin>| active_ids s \<and> int (fcard (active_ids s)) < concurrency_limit cfg
     \<and> int (fcard (active_ids s)) \<le> min_concurrency_limit cfg
     \<and> run_os_cmd ev array_id = Inr ()
     \<and> (\<exists>tgt_ms. component_ms cfg array_id = Inr tgt_ms \<and> s' = add_job array_id tgt_ms s))"
proof (cases "array_id |\<in>| active_ids s")
  case True
  with assms show ?thesis by (simp add: scan_start_step_def)
next
  case False
  show ?thesis
  proof (cases "list_index (targets cfg) (array_id - 1)")
    case (Inl e)
    with assms False show ?thesis by (simp add: scan_start_step_def)
  next
    case (Inr comp_name)
    show ?thesis
    proof (cases "dict_lookup (src_beam_map cfg) comp_name")
      case (Inl e)
      with assms False Inr show ?thesis by (simp add: scan_start_step_def split: if_splits)
    next
      case tgt: (Inr tgt_ms)
      have c: "component_ms cfg array_id = Inr tgt_ms"
        using Inr tgt by (simp add: component_ms_def)
      show ?thesis
      proof (cases "int (fcard (active_ids s)) > min_concurrency_limit cfg")
        case True
        with assms False Inr tgt show ?thesis
          by (simp add: scan_start_step_def conflict_def set_and_list_def split: if_splits)
      next
        case low: False
        with assms False Inr tgt c show ?thesis
          by (cases "run_os_cmd ev array_id")
             (simp_all add: scan_start_step_def conflict_def split: if_splits)
      qed
    qed
  qed
qed

lemma scan_start_step_frame:
  assumes "scan_start_step cfg ev t array_id = Inr t'"
  shows "remaining_array_ids t' = remaining_array_ids t
    \<and> completed_srcs t' = completed_srcs t
    \<and> failed_srcs t' = failed_srcs t
    \<and> active_ids t |\<subseteq>| active_ids t'
    \<and> (\<exists>added. active_ms t' = active_ms t @ added)"
proof (cases "t' = t")
  case True
  then show ?thesis by simp
next
  case False
  with scan_start_step_Inr [OF assms] obtain tgt_ms where "t' = add_job array_id tgt_ms t"
    by blast
  then show ?thesis by (simp add: add_job_def fsubset_finsertI)
qed

lemma release_Inr:
  assumes "release cfg s array_id comp_name = Inr s1"
    and "list_index (targets cfg) (array_id - 1) = Inr comp_name"
  shows "(array_id |\<notin>| active_ids s \<and> s1 = s) \<or>
    (array_id |\<in>| active_ids s \<and>
     (\<exists>tgt_ms held'. component_ms cfg array_id = Inr tgt_ms
        \<and> remove_each (sorted_list_of_fset tgt_ms) (active_ms s) = Inr held'
        \<and> s1 = s\<lparr>active_ids := active_ids s |-| {|array_id|}, active_ms := held'\<rparr>))"
proof (cases "array_id |\<in>| active_ids s")
  case False
  with assms show ?thesis by (simp add: release_def)
next
  case True
  show ?thesis
  proof (cases "dict_lookup (src_beam_map cfg) comp_name")
    case (Inl e)
    with assms True show ?thesis by (simp add: release_def)
  next
    case (Inr tgt_ms)
    then have c: "component_ms cfg array_id = Inr tgt_ms"
      using assms(2) by (simp add: component_ms_def)
    from assms(1) True Inr have m: "mark_comp_done array_id tgt_ms s = Inr s1"
      by (simp add: release_def)
    show ?thesis
    proof (cases "remove_each (sorted_list_of_fset tgt_ms) (active_ms s)")
      case (Inl e)
      with m True show ?thesis by (simp add: mark_comp_done_def)
    next
      case r: (Inr held')
      with m True have "s1 = s\<lparr>active_ids := active_ids s |-| {|array_id|}, active_ms := held'\<rparr>"
        by (simp add: mark_comp_done_def)
      with True c r show ?thesis by blast
    qed
  qed
qed

lemma release_active:
  assumes "array_id |\<in>| active_ids s"
    and "dict_lookup (src_beam_map cfg) comp_name = Inr tgt_ms"
    and "mset_set (fset tgt_ms) \<subseteq># mset (active_ms s)"
  shows "\<exists>held'. release cfg s array_id comp_name
           = Inr (s\<lparr>active_ids := active_ids s |-| {|array_id|}, active_ms := held'\<rparr>)
         \<and> mset held' = mset (active_ms s) - mset_set (fset tgt_ms)"
proof -
  from assms(3) have "mset (sorted_list_of_fset tgt_ms) \<subseteq># mset (active_ms s)"
    by (simp add: mset_sorted_list_of_fset)
  then obtain held' where r: "remove_each (sorted_list_of_fset tgt_ms) (active_ms s) = Inr held'"
    using remove_each_succeeds by blast
  from remove_each_Inr [OF r] have "mset held' = mset (active_ms s) - mset_set (fset tgt_ms)"
    by (simp add: mset_sorted_list_of_fset)
  with r assms(1,2) show ?thesis
    by (intro exI [of _ held']) (simp add: release_def mark_comp_done_def)
qed

lemma scan_completed_step_Inr:
  assumes "scan_completed_step cfg ev s array_id = Inr s'"
  shows "s' = s \<or>
    (\<exists>comp_name s1. list_index (targets cfg) (array_id - 1) = Inr comp_name
       \<and> comp_name |\<notin>| completed_srcs s \<and> comp_name |\<notin>| failed_srcs s
       \<and> (completed_file ev array_id \<or> failed_file ev array_id)
       \<and> array_id \<in> set (remaining_array_ids s)
       \<and> release cfg s array_id comp_name = Inr s1
       \<and> s' = retire (completed_file ev array_id) comp_name array_id s1)"
proof (cases "list_index (targets cfg) (array_id - 1)")
  case (Inl e)
  with assms show ?thesis by (simp add: scan_completed_step_def)
next
  case (Inr comp_name)
  show ?thesis
  proof (cases "comp_name |\<in>| completed_srcs s \<or> comp_name |\<in>| failed_srcs s")
    case True
    with assms Inr show ?thesis by (auto simp add: scan_completed_step_def)
  next
    case fresh: False
    show ?thesis
    proof (cases "completed_file ev array_id \<or> failed_file ev array_id")
      case False
      with assms Inr fresh show ?thesis by (simp add: scan_completed_step_def)
    next
      case True
      show ?thesis
      proof (cases "release cfg s array_id comp_name")
        case (Inl e)
        with assms Inr fresh True show ?thesis
          by (auto simp add: scan_completed_step_def split: if_splits)
      next
        case rel: (Inr s1)
        from release_Inr [OF rel Inr] have same: "remaining_array_ids s1 = remaining_array_ids s"
          by auto
        from assms Inr fresh True rel same
        have "array_id \<in> set (remaining_array_ids s)
              \<and> s' = retire (completed_file ev array_id) comp_name array_id s1"
          by (auto simp add: scan_completed_step_def list_remove_def retire_def split: if_splits)
        with Inr fresh True rel show ?thesis by blast
      qed
    qed
  qed
qed

lemma scan_completed_step_detected:
  assumes "list_index (targets cfg) (array_id - 1) = Inr comp_name"
    and "comp_name |\<notin>| completed_srcs s" and "comp_name |\<notin>| failed_srcs s"
    and "completed_file ev array_id \<or> failed_file ev array_id"
    and "array_id \<in> set (remaining_array_ids s)"
    and "release cfg s array_id comp_name = Inr s1"
    and "remaining_array_ids s1 = remaining_array_ids s"
  shows "scan_completed_step cfg ev s array_id
           = Inr (retire (completed_file ev array_id) comp_name array_id s1)"
  using assms by (auto simp: scan_completed_step_def list_remove_def retire_def)

lemma scan_completed_step_active:
  assumes "scan_completed_step cfg ev s array_id = Inr s'"
  shows "active_ids s' |\<subseteq>| active_ids s"
proof (cases "s' = s")
  case True
  then show ?thesis by simp
next
  case False
  with scan_completed_step_Inr [OF assms] obtain comp_name s1
    where n: "list_index (targets cfg) (array_id - 1) = Inr comp_name"
      and r: "release cfg s array_id comp_name = Inr s1"
      and s': "s' = retire (completed_file ev array_id) comp_name array_id s1"
    by blast
  from release_Inr [OF r n] have "active_ids s1 |\<subseteq>| active_ids s" by auto
  with s' show ?thesis by (simp add: retire_def)
qed

lemma scan_completed_step_held:
  assumes "scan_completed_step cfg ev s array_id = Inr s'"
  shows "mset (active_ms s') \<subseteq># mset (active_ms s)"
proof (cases "s' = s")
  case True
  then show ?thesis by simp
next
  case False
  with scan_completed_step_Inr [OF assms] obtain comp_name s1
    where n: "list_index (targets cfg) (array_id - 1) = Inr comp_name"
      and r: "release cfg s array_id comp_name = Inr s1"
      and s': "s' = retire (completed_file ev array_id) comp_name array_id s1"
    by blast
  have "mset (active_ms s1) \<subseteq># mset (active_ms s)"
  proof (cases "array_id |\<in>| active_ids s")
    case False
    with release_Inr [OF r n] show ?thesis by auto
  next
    case True
    with release_Inr [OF r n] obtain tgt_ms held'
      where h: "remove_each (sorted_list_of_fset tgt_ms) (active_ms s) = Inr held'"
        and s1: "s1 = s\<lparr>active_ids := active_ids s |-| {|array_id|}, active_ms := held'\<rparr>"
      by blast
    from remove_each_Inr [OF h] s1 show ?thesis by simp
  qed
  with s' show ?thesis by (simp add: retire_def)
qed

subsection \<open>Lifting a property of the loop bodies to a run\<close>

lemma scan_start_preserves:
  assumes "scan_start cfg ev s ids = Inr s'" and "P s"
    and step: "\<And>t array_id t'. P t \<Longrightarrow> scan_start_step cfg ev t array_id = Inr t' \<Longrightarrow> P t'"
  shows "P s'"
  using assms(1,2)
proof (induction ids arbitrary: s)
  case Nil
  then show ?case by simp
next
  case (Cons array_id rest)
  then show ?case
    by (cases "scan_start_step cfg ev s array_id") (auto intro: step)
qed

lemma scan_completed_preserves:
  assumes "scan_completed cfg ev s ids = Inr s'" and "P s"
    and step: "\<And>t array_id t'. P t \<Longrightarrow> scan_completed_step cfg ev t array_id = Inr t' \<Longrightarrow> P t'"
  shows "P s'"
  using assms(1,2)
proof (induction ids arbitrary: s)
  case Nil
  then show ?case by simp
next
  case (Cons array_id rest)
  then show ?case
    by (cases "scan_completed_step cfg ev s array_id") (auto intro: step)
qed

lemma job_loop_Inr:
  assumes "job_loop cfg ev s = Inr (s', n)"
  obtains s1 where "scan_completed cfg ev s (remaining_array_ids s) = Inr s1"
    and "scan_start cfg ev s1 (remaining_array_ids s1) = Inr s'"
    and "n = int (fcard (active_ids s'))"
  using assms by (auto simp: job_loop_def split: sum.splits)

lemma job_loop_preserves:
  assumes "job_loop cfg ev s = Inr (s', n)" and "P s"
    and "\<And>t array_id t'. P t \<Longrightarrow> scan_completed_step cfg ev t array_id = Inr t' \<Longrightarrow> P t'"
    and "\<And>t array_id t'. P t \<Longrightarrow> scan_start_step cfg ev t array_id = Inr t' \<Longrightarrow> P t'"
  shows "P s'"
proof -
  from assms(1) obtain s1 where a: "scan_completed cfg ev s (remaining_array_ids s) = Inr s1"
    and b: "scan_start cfg ev s1 (remaining_array_ids s1) = Inr s'"
    by (rule job_loop_Inr)
  from a assms(2,3) have "P s1" by (rule scan_completed_preserves)
  with b show ?thesis using assms(4) by (rule scan_start_preserves)
qed

lemma observation_preserves:
  assumes "observation cfg envs delay pre max_loops i s"
    and "\<And>s0 n0. register_active cfg (initial cfg) pre = Inr (s0, n0) \<Longrightarrow> P s0"
    and "\<And>ev t array_id t'. P t \<Longrightarrow> scan_completed_step cfg ev t array_id = Inr t' \<Longrightarrow> P t'"
    and "\<And>ev t array_id t'. P t \<Longrightarrow> scan_start_step cfg ev t array_id = Inr t' \<Longrightarrow> P t'"
  shows "P s"
  using assms(1)
proof (induction rule: observation.induct)
  case (registered s0 n0)
  then show ?case by (rule assms(2))
next
  case (looped i s s' n)
  from looped.hyps(5) looped.IH show ?case
    by (rule job_loop_preserves) (erule (1) assms(3), erule (1) assms(4))
qed

lemma observation_count:
  "observation cfg envs delay pre max_loops i s \<Longrightarrow> 0 \<le> i \<and> i \<le> max 0 max_loops"
  by (induction rule: observation.induct) auto

subsection \<open>The example runs\<close>

lemmas example_defs = abc_def quiet_def a_running_def two_at_most_def one_at_a_time_def
  a_completed_def b_failed_def ab_running_def always_quiet_def c_running_def ac_running_def
  b_running_def

lemmas eval_defs = initial_def job_loop_def scan_completed_step_def scan_start_step_def
  list_index_def dict_lookup_def conflict_def run_os_cmd_def add_job_def release_def
  mark_comp_done_def list_remove_def component_ms_def register_active_def
  sorted_list_of_fset.rep_eq fcard_finsert_if fcard_fempty upto.simps sleep_def

lemma first_loop: "job_loop two_at_most quiet (initial two_at_most) = Inr (ab_running, 2)"
  by (simp add: example_defs eval_defs finsert_commute)

lemma second_loop: "job_loop two_at_most quiet ab_running = Inr (ab_running, 2)"
  by (simp add: example_defs eval_defs)

lemma no_pre_active: "register_active two_at_most (initial two_at_most) None = Inr (initial two_at_most, 0)"
  by (simp add: register_active_def)

lemma first_observation: "observation two_at_most always_quiet 30 None 500 1 ab_running"
proof -
  have "observation two_at_most always_quiet 30 None 500 (0 + 1) ab_running"
  proof (rule looped)
    show "observation two_at_most always_quiet 30 None 500 0 (initial two_at_most)"
      using no_pre_active by (rule registered)
    show "(0::int) = 0 \<or> sleep (always_quiet 0) 30 = Inr ()" by simp
    show "length (remaining_array_ids (initial two_at_most)) > 0"
      by (simp add: example_defs eval_defs)
    show "(0::int) < 500" by simp
    show "job_loop two_at_most (always_quiet (0 + 1)) (initial two_at_most) = Inr (ab_running, 2)"
      by (simp add: always_quiet_def first_loop)
  qed
  then show ?thesis by simp
qed

lemma c_pre_active: "register_active two_at_most (initial two_at_most) (Some [3]) = Inr (c_running, 1)"
  by (simp add: example_defs eval_defs)

lemma c_first_loop: "job_loop two_at_most quiet c_running = Inr (ac_running, 2)"
  by (simp add: example_defs eval_defs finsert_commute)

lemma c_first_observation: "observation two_at_most always_quiet 30 (Some [3]) 500 1 ac_running"
proof -
  have "observation two_at_most always_quiet 30 (Some [3]) 500 (0 + 1) ac_running"
  proof (rule looped)
    show "observation two_at_most always_quiet 30 (Some [3]) 500 0 c_running"
      using c_pre_active by (rule registered)
    show "(0::int) = 0 \<or> sleep (always_quiet 0) 30 = Inr ()" by simp
    show "length (remaining_array_ids c_running) > 0"
      by (simp add: c_running_def)
    show "(0::int) < 500" by simp
    show "job_loop two_at_most (always_quiet (0 + 1)) c_running = Inr (ac_running, 2)"
      by (simp add: always_quiet_def c_first_loop)
  qed
  then show ?thesis by simp
qed

lemma scan_from_a: "scan_start two_at_most quiet a_running [1, 2, 3] = Inr ab_running"
  by (simp add: example_defs eval_defs finsert_commute)

lemma reuse_loop: "job_loop one_at_a_time a_completed a_running = Inr (b_running, 1)"
  by (simp add: example_defs eval_defs)

lemma quiet_sleeps: "sleep quiet 30 = Inr ()"
  by (simp add: sleep_def quiet_def)

lemma quiet_refuses: "sleep quiet (- 1) = Inl ValueError"
  by (simp add: sleep_def quiet_def)

lemma two_loops:
  "while_loop two_at_most always_quiet 30 2 0 0 (initial two_at_most) = Inr (ab_running, 2, 4)"
proof -
  have r0: "length (remaining_array_ids (initial two_at_most)) > 0"
    by (simp add: initial_def two_at_most_def abc_def upto.simps)
  have r: "length (remaining_array_ids ab_running) > 0"
    by (simp add: ab_running_def)
  have "while_loop two_at_most always_quiet 30 2 2 4 ab_running = Inr (ab_running, 2, 4)"
    by (simp add: while_loop.simps [of _ _ _ 2 2])
  then have "while_loop two_at_most always_quiet 30 2 1 2 ab_running = Inr (ab_running, 2, 4)"
    using r
    by (simp add: while_loop.simps [of _ _ _ 2 1] always_quiet_def second_loop quiet_sleeps)
  then show ?thesis
    using r r0
    by (simp add: while_loop.simps [of _ _ _ 2 0] always_quiet_def first_loop quiet_sleeps)
qed

lemma one_loop_then_sleep_raises:
  "while_loop two_at_most always_quiet (- 1) 1 0 0 (initial two_at_most) = Inl ValueError"
proof -
  have r0: "length (remaining_array_ids (initial two_at_most)) > 0"
    by (simp add: initial_def two_at_most_def abc_def upto.simps)
  have r: "length (remaining_array_ids ab_running) > 0"
    by (simp add: ab_running_def)
  from r r0 show ?thesis
    by (simp add: while_loop.simps [of _ _ _ 1 0] always_quiet_def first_loop quiet_refuses)
qed

lemma one_loop_then_sleep_overflows:
  "while_loop two_at_most always_quiet 10000000000 1 0 0 (initial two_at_most)
     = Inl OverflowError"
proof -
  have r0: "length (remaining_array_ids (initial two_at_most)) > 0"
    by (simp add: initial_def two_at_most_def abc_def upto.simps)
  have r: "length (remaining_array_ids ab_running) > 0"
    by (simp add: ab_running_def)
  have "sleep quiet 10000000000 = Inl OverflowError"
    by (simp add: sleep_def quiet_def)
  with r r0 show ?thesis
    by (simp add: while_loop.simps [of _ _ _ 1 0] always_quiet_def first_loop)
qed

lemma first_observation_before_sleep:
  "observation two_at_most always_quiet (- 1) None 1 1 ab_running"
proof -
  have "observation two_at_most always_quiet (- 1) None 1 (0 + 1) ab_running"
  proof (rule looped)
    show "observation two_at_most always_quiet (- 1) None 1 0 (initial two_at_most)"
      using no_pre_active by (rule registered)
    show "(0::int) = 0 \<or> sleep (always_quiet 0) (- 1) = Inr ()" by simp
    show "length (remaining_array_ids (initial two_at_most)) > 0"
      by (simp add: initial_def two_at_most_def abc_def upto.simps)
    show "(0::int) < 1" by simp
    show "job_loop two_at_most (always_quiet (0 + 1)) (initial two_at_most) = Inr (ab_running, 2)"
      by (simp add: always_quiet_def first_loop)
  qed
  then show ?thesis by simp
qed

subsection \<open>The conflict check (C1)\<close>

text \<open>
  Whenever the second loop reaches a job that is neither active nor completed while more
  than \<open>min_concurrency_limit\<close> jobs are active, the test of line 176 raises.
\<close>

lemma scan_start_step_raises:
  assumes "array_id |\<notin>| active_ids s"
    and "list_index (targets cfg) (array_id - 1) = Inr comp_name"
    and "comp_name |\<notin>| completed_srcs s"
    and "dict_lookup (src_beam_map cfg) comp_name = Inr tgt_ms"
    and "int (fcard (active_ids s)) > min_concurrency_limit cfg"
  shows "scan_start_step cfg ev s array_id = Inl TypeError"
  using assms by (simp add: scan_start_step_def conflict_def set_and_list_def)

text \<open>
  C1. Above the floor a job whose measurement sets are in use should be passed over and
  stay queued. The code does not get that far: with job 1 active, job 2 sharing its
  measurement set 1 and \<open>min_concurrency_limit = 0\<close>, the scan reaches job 2, evaluates
  \<open>tgt_ms & active_ms\<close> on a set and a list, and \<open>job_loop\<close> raises \<open>TypeError\<close>. The same
  happens in the first loop of a whole run from the empty state, once job 1 has been
  started.
\<close>

theorem conflict_check_raises:
  "job_loop (abc\<lparr>min_concurrency_limit := 0\<rparr>) quiet a_running = Inl TypeError
   \<and> produce_all_cutouts (abc\<lparr>min_concurrency_limit := 0\<rparr>) always_quiet 30 None 500
       = Inl TypeError"
  by (simp add: produce_all_cutouts_def while_loop.simps example_defs eval_defs
      set_and_list_def)

subsection \<open>Admission at or below the floor (C2)\<close>

lemma scan_start_step_admits:
  assumes "array_id |\<notin>| active_ids s"
    and "list_index (targets cfg) (array_id - 1) = Inr comp_name"
    and "comp_name |\<notin>| completed_srcs s"
    and "dict_lookup (src_beam_map cfg) comp_name = Inr tgt_ms"
    and "int (fcard (active_ids s)) \<le> min_concurrency_limit cfg"
    and "int (fcard (active_ids s)) < concurrency_limit cfg"
    and "subprocess_call ev array_id = Retcode 0"
  shows "scan_start_step cfg ev s array_id = Inr (add_job array_id tgt_ms s)"
  using assms by (simp add: scan_start_step_def conflict_def run_os_cmd_def)

lemma scan_start_passes_over:
  assumes "\<forall>a \<in> set passed. a |\<in>| active_ids s
             \<or> (\<exists>name. list_index (targets cfg) (a - 1) = Inr name \<and> name |\<in>| completed_srcs s)"
  shows "scan_start cfg ev s (passed @ ids) = scan_start cfg ev s ids"
  using assms
proof (induction passed)
  case Nil
  then show ?case by simp
next
  case (Cons a passed)
  then have "scan_start_step cfg ev s a = Inr s"
    by (auto simp: scan_start_step_def)
  with Cons show ?case by simp
qed

text \<open>
  C2. Let the second loop have passed over ids that are active or whose component is
  completed, and let the next id be a queued job: not active, its component not
  completed, its measurement sets \<open>tgt_ms\<close> found. If at most \<open>min_concurrency_limit\<close>
  and fewer than \<open>concurrency_limit\<close> jobs are active and the start command returns 0,
  the job is started, whatever \<open>tgt_ms\<close> has in common with \<open>active_ms\<close>: the scan goes on
  with the remaining ids from the state in which the job is active and holds \<open>tgt_ms\<close>.
\<close>

theorem floor_admits_despite_conflict:
  assumes "\<forall>a \<in> set passed. a |\<in>| active_ids s
             \<or> (\<exists>name. list_index (targets cfg) (a - 1) = Inr name \<and> name |\<in>| completed_srcs s)"
    and "array_id |\<notin>| active_ids s"
    and "list_index (targets cfg) (array_id - 1) = Inr comp_name"
    and "comp_name |\<notin>| completed_srcs s"
    and "dict_lookup (src_beam_map cfg) comp_name = Inr tgt_ms"
    and "int (fcard (active_ids s)) \<le> min_concurrency_limit cfg"
    and "int (fcard (active_ids s)) < concurrency_limit cfg"
    and "subprocess_call ev array_id = Retcode 0"
  shows "scan_start_step cfg ev s array_id = Inr (add_job array_id tgt_ms s)
    \<and> scan_start cfg ev s (passed @ array_id # rest)
        = scan_start cfg ev (add_job array_id tgt_ms s) rest"
  using scan_start_step_admits [OF assms(2-8)] scan_start_passes_over [OF assms(1)]
  by simp

text \<open>
  With job 1 active on measurement set 1 and both limits 2, job 2, which needs
  measurement set 1 as well, is started.
\<close>

theorem floor_admits_despite_conflict_witness:
  "fset {|1 :: nat|} \<inter> set (active_ms a_running) \<noteq> {}
   \<and> int (fcard (active_ids a_running)) \<le> min_concurrency_limit two_at_most
   \<and> int (fcard (active_ids a_running)) < concurrency_limit two_at_most
   \<and> scan_start_step two_at_most quiet a_running 2 = Inr (add_job 2 {|1|} a_running)
   \<and> scan_start two_at_most quiet a_running ([1] @ 2 # [3])
       = scan_start two_at_most quiet (add_job 2 {|1|} a_running) [3]
   \<and> add_job 2 {|1|} a_running = ab_running"
proof -
  have h1: "\<forall>a \<in> set [1]. a |\<in>| active_ids a_running
       \<or> (\<exists>name. list_index (targets two_at_most) (a - 1) = Inr name
            \<and> name |\<in>| completed_srcs a_running)"
    and h2: "2 |\<notin>| active_ids a_running"
    and h3: "list_index (targets two_at_most) (2 - 1) = Inr ''B''"
    and h4: "''B'' |\<notin>| completed_srcs a_running"
    and h5: "dict_lookup (src_beam_map two_at_most) ''B'' = Inr {|1|}"
    and h6: "int (fcard (active_ids a_running)) \<le> min_concurrency_limit two_at_most"
    and h7: "int (fcard (active_ids a_running)) < concurrency_limit two_at_most"
    and h8: "subprocess_call quiet 2 = Retcode 0"
    by (simp_all add: example_defs eval_defs)
  have i: "fset {|1 :: nat|} \<inter> set (active_ms a_running) \<noteq> {}"
    and j: "add_job 2 {|1|} a_running = ab_running"
    by (simp_all add: example_defs eval_defs finsert_commute)
  from floor_admits_despite_conflict [OF h1 h2 h3 h4 h5 h6 h7 h8, of "[3]"] h6 h7 i j
  show ?thesis by simp
qed

subsection \<open>The concurrency limit (C3)\<close>

lemma fcard_add_job:
  "array_id |\<notin>| active_ids s \<Longrightarrow> fcard (active_ids (add_job array_id tgt_ms s)) = Suc (fcard (active_ids s))"
  by (simp add: add_job_def fcard_finsert_disjoint)

lemma scan_start_step_bound:
  assumes "scan_start_step cfg ev s array_id = Inr s'"
    and "int (fcard (active_ids s)) \<le> b" and "concurrency_limit cfg \<le> b"
  shows "int (fcard (active_ids s')) \<le> b"
  using scan_start_step_Inr [OF assms(1)] assms(2,3)
  by (auto simp: fcard_add_job)

lemma scan_completed_step_bound:
  assumes "scan_completed_step cfg ev s array_id = Inr s'"
    and "int (fcard (active_ids s)) \<le> b"
  shows "int (fcard (active_ids s')) \<le> b"
proof -
  from scan_completed_step_active [OF assms(1)] have "fcard (active_ids s') \<le> fcard (active_ids s)"
    by (rule fcard_mono)
  with assms(2) show ?thesis by simp
qed

lemma register_13:
  "register_active (abc\<lparr>concurrency_limit := 1\<rparr>) (initial (abc\<lparr>concurrency_limit := 1\<rparr>)) (Some [1, 3])
    = Inr (\<lparr>active_ids = {|1, 3|}, active_ms = [1, 2], remaining_array_ids = [1, 2, 3],
         completed_srcs = {||}, failed_srcs = {||}\<rparr>, 2)"
  by (simp add: register_active_def initial_def abc_def component_ms_def list_index_def
      dict_lookup_def add_job_def upto.simps fcard_finsert_if sorted_list_of_fset.rep_eq
      finsert_commute)

text \<open>
  \<open>register_active\<close> compares nothing with \<open>concurrency_limit\<close>: with a limit of 1 and
  jobs 1 and 3 given as already active, two jobs are active at the first observation
  point.
\<close>

theorem pre_activation_exceeds_limit:
  "observation (abc\<lparr>concurrency_limit := 1\<rparr>) always_quiet 30 (Some [1, 3]) 500 0
     \<lparr>active_ids = {|1, 3|}, active_ms = [1, 2], remaining_array_ids = [1, 2, 3],
      completed_srcs = {||}, failed_srcs = {||}\<rparr>
   \<and> \<not> int (fcard {|1, 3 :: int|}) \<le> concurrency_limit (abc\<lparr>concurrency_limit := 1\<rparr>)"
  by (rule conjI, rule registered, rule register_13) (simp add: fcard_finsert_if)

text \<open>
  C3, amended. At every observation point the number of active ids is at most the larger
  of \<open>concurrency_limit\<close> and the number of ids active right after \<open>register_active\<close>: no
  call of \<open>job_loop\<close> takes it above \<open>concurrency_limit\<close>, or raises it when it is there
  already. So the limit holds throughout a run in which \<open>register_active\<close> leaves at most
  \<open>concurrency_limit\<close> ids active.
\<close>

theorem concurrency_limit_kept:
  assumes "register_active cfg (initial cfg) pre_active_jobs = Inr (s0, n0)"
    and "observation cfg envs delay pre_active_jobs max_loops i s"
  shows "int (fcard (active_ids s)) \<le> max (concurrency_limit cfg) (int (fcard (active_ids s0)))"
  using assms(2)
proof (rule observation_preserves)
  fix t0 m0
  assume "register_active cfg (initial cfg) pre_active_jobs = Inr (t0, m0)"
  with assms(1) have "t0 = s0" by simp
  then show "int (fcard (active_ids t0)) \<le> max (concurrency_limit cfg) (int (fcard (active_ids s0)))"
    by simp
next
  fix ev t array_id t'
  assume b: "int (fcard (active_ids t)) \<le> max (concurrency_limit cfg) (int (fcard (active_ids s0)))"
    and st: "scan_completed_step cfg ev t array_id = Inr t'"
  from st b show "int (fcard (active_ids t')) \<le> max (concurrency_limit cfg) (int (fcard (active_ids s0)))"
    by (rule scan_completed_step_bound)
next
  fix ev t array_id t'
  assume b: "int (fcard (active_ids t)) \<le> max (concurrency_limit cfg) (int (fcard (active_ids s0)))"
    and st: "scan_start_step cfg ev t array_id = Inr t'"
  from st b show "int (fcard (active_ids t')) \<le> max (concurrency_limit cfg) (int (fcard (active_ids s0)))"
    by (rule scan_start_step_bound) simp
qed

theorem concurrency_limit_kept_witness:
  "register_active two_at_most (initial two_at_most) None = Inr (initial two_at_most, 0)
   \<and> observation two_at_most always_quiet 30 None 500 1 ab_running
   \<and> int (fcard (active_ids ab_running))
       \<le> max (concurrency_limit two_at_most) (int (fcard (active_ids (initial two_at_most))))
   \<and> int (fcard (active_ids ab_running)) = 2 \<and> concurrency_limit two_at_most = 2"
proof -
  have "int (fcard (active_ids ab_running)) = 2 \<and> concurrency_limit two_at_most = 2"
    by (simp add: example_defs fcard_finsert_if fcard_fempty)
  with concurrency_limit_kept [OF no_pre_active first_observation] no_pre_active first_observation
  show ?thesis by blast
qed

subsection \<open>The occupancy of the measurement sets (C4)\<close>

lemma held_by_finsert:
  "array_id |\<notin>| A \<Longrightarrow> held_by cfg (finsert array_id A) = held_by cfg A + mset_set (fset (ms_of cfg array_id))"
  by (simp add: held_by_def)

lemma held_by_fminus:
  "array_id |\<in>| A \<Longrightarrow> held_by cfg (A |-| {|array_id|}) = held_by cfg A - mset_set (fset (ms_of cfg array_id))"
  by (simp add: held_by_def sum.remove [of "fset A" array_id])

lemma held_by_member:
  "array_id |\<in>| A \<Longrightarrow> mset_set (fset (ms_of cfg array_id)) \<subseteq># held_by cfg A"
  by (simp add: held_by_def sum.remove [of "fset A" array_id])

lemma ms_of_Inr: "component_ms cfg array_id = Inr tgt_ms \<Longrightarrow> ms_of cfg array_id = tgt_ms"
  by (simp add: ms_of_def)

lemma add_job_occupancy:
  assumes "array_id |\<notin>| active_ids s" and "component_ms cfg array_id = Inr tgt_ms"
    and "mset (active_ms s) = held_by cfg (active_ids s)"
  shows "mset (active_ms (add_job array_id tgt_ms s)) = held_by cfg (active_ids (add_job array_id tgt_ms s))"
  using assms
  by (simp add: add_job_def held_by_finsert ms_of_Inr mset_sorted_list_of_fset)

lemma scan_start_step_occupancy:
  assumes "scan_start_step cfg ev s array_id = Inr s'"
    and "mset (active_ms s) = held_by cfg (active_ids s)"
  shows "mset (active_ms s') = held_by cfg (active_ids s')"
  using scan_start_step_Inr [OF assms(1)] assms(2)
  by (auto simp: add_job_occupancy)

lemma release_occupancy:
  assumes "release cfg s array_id comp_name = Inr s1"
    and "list_index (targets cfg) (array_id - 1) = Inr comp_name"
    and "mset (active_ms s) = held_by cfg (active_ids s)"
  shows "mset (active_ms s1) = held_by cfg (active_ids s1)"
proof (cases "array_id |\<in>| active_ids s")
  case False
  with release_Inr [OF assms(1,2)] assms(3) show ?thesis by auto
next
  case True
  with release_Inr [OF assms(1,2)] obtain tgt_ms held'
    where c: "component_ms cfg array_id = Inr tgt_ms"
      and r: "remove_each (sorted_list_of_fset tgt_ms) (active_ms s) = Inr held'"
      and s1: "s1 = s\<lparr>active_ids := active_ids s |-| {|array_id|}, active_ms := held'\<rparr>"
    by blast
  from remove_each_Inr [OF r] have "mset held' = mset (active_ms s) - mset_set (fset tgt_ms)"
    by (simp add: mset_sorted_list_of_fset)
  with True c s1 assms(3) show ?thesis
    by (simp add: held_by_fminus ms_of_Inr)
qed

lemma scan_completed_step_occupancy:
  assumes "scan_completed_step cfg ev s array_id = Inr s'"
    and "mset (active_ms s) = held_by cfg (active_ids s)"
  shows "mset (active_ms s') = held_by cfg (active_ids s')"
proof (cases "s' = s")
  case True
  with assms(2) show ?thesis by simp
next
  case False
  with scan_completed_step_Inr [OF assms(1)] obtain comp_name s1
    where n: "list_index (targets cfg) (array_id - 1) = Inr comp_name"
      and r: "release cfg s array_id comp_name = Inr s1"
      and s': "s' = retire (completed_file ev array_id) comp_name array_id s1"
    by blast
  from release_occupancy [OF r n assms(2)] s' show ?thesis by (simp add: retire_def)
qed

lemma register_each_occupancy:
  assumes "register_each cfg s ids = Inr s'"
    and "distinct ids" and "\<forall>array_id \<in> set ids. array_id |\<notin>| active_ids s"
    and "mset (active_ms s) = held_by cfg (active_ids s)"
  shows "mset (active_ms s') = held_by cfg (active_ids s')"
  using assms
proof (induction ids arbitrary: s)
  case Nil
  then show ?case by simp
next
  case (Cons array_id rest)
  from Cons.prems(1) obtain tgt_ms where c: "component_ms cfg array_id = Inr tgt_ms"
    and r: "register_each cfg (add_job array_id tgt_ms s) rest = Inr s'"
    by (auto split: sum.splits)
  from Cons.prems(3) have "array_id |\<notin>| active_ids s" by simp
  from add_job_occupancy [OF this c Cons.prems(4)]
  have o: "mset (active_ms (add_job array_id tgt_ms s))
    = held_by cfg (active_ids (add_job array_id tgt_ms s))" .
  from Cons.prems(2,3) have d: "distinct rest"
    and f: "\<forall>a \<in> set rest. a |\<notin>| active_ids (add_job array_id tgt_ms s)"
    by (auto simp: add_job_def)
  from Cons.IH [OF r d f o] show ?case .
qed

lemma register_11:
  "register_active abc (initial abc) (Some [1, 1])
    = Inr (\<lparr>active_ids = {|1|}, active_ms = [1, 1], remaining_array_ids = [1, 2, 3],
         completed_srcs = {||}, failed_srcs = {||}\<rparr>, 1)"
  by (simp add: register_active_def initial_def abc_def component_ms_def list_index_def
      dict_lookup_def add_job_def upto.simps fcard_finsert_if sorted_list_of_fset.rep_eq)

text \<open>
  An id given twice as already active is added to \<open>active_ids\<close> once and its measurement
  sets to \<open>active_ms\<close> twice.
\<close>

theorem repeated_pre_activation_counted_twice:
  "observation abc always_quiet 30 (Some [1, 1]) 500 0
     \<lparr>active_ids = {|1|}, active_ms = [1, 1], remaining_array_ids = [1, 2, 3],
      completed_srcs = {||}, failed_srcs = {||}\<rparr>
   \<and> mset [1, 1] \<noteq> held_by abc {|1|}"
  by (rule conjI, rule registered, rule register_11)
     (simp add: held_by_def ms_of_def component_ms_def list_index_def dict_lookup_def abc_def)

text \<open>
  C4, amended. When no id occurs twice in \<open>pre_active_jobs\<close>, then at every observation
  point \<open>active_ms\<close>, as a multiset, is the sum of the measurement sets of the active ids.
\<close>

theorem occupancy_matches_active:
  assumes "case pre_active_jobs of None \<Rightarrow> True | Some ids \<Rightarrow> distinct ids"
    and "observation cfg envs delay pre_active_jobs max_loops i s"
  shows "mset (active_ms s) = held_by cfg (active_ids s)"
  using assms(2)
proof (rule observation_preserves)
  fix s0 n0
  assume r: "register_active cfg (initial cfg) pre_active_jobs = Inr (s0, n0)"
  have e: "mset (active_ms (initial cfg)) = held_by cfg (active_ids (initial cfg))"
    by (simp add: initial_def held_by_def)
  show "mset (active_ms s0) = held_by cfg (active_ids s0)"
  proof (cases "\<exists>a as. pre_active_jobs = Some (a # as)")
    case False
    with r have "s0 = initial cfg"
      by (auto simp: register_active_def split: option.splits list.splits)
    with e show ?thesis by simp
  next
    case True
    then obtain a as where p: "pre_active_jobs = Some (a # as)" by blast
    with r have "register_each cfg (initial cfg) (a # as) = Inr s0"
      by (auto simp: register_active_def split: sum.splits)
    moreover from p assms(1) have "distinct (a # as)" by simp
    moreover have "\<forall>array_id \<in> set (a # as). array_id |\<notin>| active_ids (initial cfg)"
      by (simp add: initial_def)
    ultimately show ?thesis using e by (rule register_each_occupancy)
  qed
next
  fix ev t array_id t'
  assume o: "mset (active_ms t) = held_by cfg (active_ids t)"
    and st: "scan_completed_step cfg ev t array_id = Inr t'"
  from st o show "mset (active_ms t') = held_by cfg (active_ids t')"
    by (rule scan_completed_step_occupancy)
next
  fix ev t array_id t'
  assume o: "mset (active_ms t) = held_by cfg (active_ids t)"
    and st: "scan_start_step cfg ev t array_id = Inr t'"
  from st o show "mset (active_ms t') = held_by cfg (active_ids t')"
    by (rule scan_start_step_occupancy)
qed

theorem occupancy_matches_active_witness:
  "(case Some [3 :: int] of None \<Rightarrow> True | Some ids \<Rightarrow> distinct ids)
   \<and> observation two_at_most always_quiet 30 (Some [3]) 500 1 ac_running
   \<and> mset (active_ms ac_running) = held_by two_at_most (active_ids ac_running)"
proof -
  have h: "case Some [3 :: int] of None \<Rightarrow> True | Some ids \<Rightarrow> distinct ids" by simp
  from occupancy_matches_active [OF h c_first_observation] h c_first_observation
  show ?thesis by simp
qed

text \<open>
  Whatever \<open>pre_active_jobs\<close> is, the measurement sets of every active job are in
  \<open>active_ms\<close> at every observation point, so \<open>mark_comp_done\<close> finds them there.
\<close>

lemma add_job_covers:
  assumes "component_ms cfg array_id = Inr tgt_ms"
    and "held_by cfg (active_ids s) \<subseteq># mset (active_ms s)"
  shows "held_by cfg (active_ids (add_job array_id tgt_ms s))
           \<subseteq># mset (active_ms (add_job array_id tgt_ms s))"
proof (cases "array_id |\<in>| active_ids s")
  case True
  then have "finsert array_id (active_ids s) = active_ids s" by auto
  with assms(2) show ?thesis
    by (simp add: add_job_def subset_mset.add_increasing2)
next
  case False
  with assms show ?thesis
    by (simp add: add_job_def held_by_finsert ms_of_Inr mset_sorted_list_of_fset)
qed

lemma scan_start_step_covers:
  assumes "scan_start_step cfg ev s array_id = Inr s'"
    and "held_by cfg (active_ids s) \<subseteq># mset (active_ms s)"
  shows "held_by cfg (active_ids s') \<subseteq># mset (active_ms s')"
  using scan_start_step_Inr [OF assms(1)] assms(2)
  by (auto simp: add_job_covers)

lemma scan_completed_step_covers:
  assumes "scan_completed_step cfg ev s array_id = Inr s'"
    and "held_by cfg (active_ids s) \<subseteq># mset (active_ms s)"
  shows "held_by cfg (active_ids s') \<subseteq># mset (active_ms s')"
proof (cases "s' = s")
  case True
  with assms(2) show ?thesis by simp
next
  case False
  with scan_completed_step_Inr [OF assms(1)] obtain comp_name s1
    where n: "list_index (targets cfg) (array_id - 1) = Inr comp_name"
      and r: "release cfg s array_id comp_name = Inr s1"
      and s': "s' = retire (completed_file ev array_id) comp_name array_id s1"
    by blast
  have "held_by cfg (active_ids s1) \<subseteq># mset (active_ms s1)"
  proof (cases "array_id |\<in>| active_ids s")
    case False
    with release_Inr [OF r n] assms(2) show ?thesis by auto
  next
    case True
    with release_Inr [OF r n] obtain tgt_ms held'
      where c: "component_ms cfg array_id = Inr tgt_ms"
        and h: "remove_each (sorted_list_of_fset tgt_ms) (active_ms s) = Inr held'"
        and s1: "s1 = s\<lparr>active_ids := active_ids s |-| {|array_id|}, active_ms := held'\<rparr>"
      by blast
    from remove_each_Inr [OF h] have "mset held' = mset (active_ms s) - mset_set (fset tgt_ms)"
      by (simp add: mset_sorted_list_of_fset)
    with True c s1 assms(2) show ?thesis
      by (simp add: held_by_fminus ms_of_Inr mset_diff_mono)
  qed
  with s' show ?thesis by (simp add: retire_def)
qed

lemma register_each_covers:
  assumes "register_each cfg s ids = Inr s'"
    and "held_by cfg (active_ids s) \<subseteq># mset (active_ms s)"
  shows "held_by cfg (active_ids s') \<subseteq># mset (active_ms s')"
  using assms
proof (induction ids arbitrary: s)
  case Nil
  then show ?case by simp
next
  case (Cons array_id rest)
  from Cons.prems(1) obtain tgt_ms where c: "component_ms cfg array_id = Inr tgt_ms"
    and r: "register_each cfg (add_job array_id tgt_ms s) rest = Inr s'"
    by (auto split: sum.splits)
  from Cons.IH [OF r add_job_covers [OF c Cons.prems(2)]] show ?case .
qed

lemma active_jobs_hold_their_ms:
  assumes "observation cfg envs delay pre_active_jobs max_loops i s"
    and "array_id |\<in>| active_ids s"
  shows "mset_set (fset (ms_of cfg array_id)) \<subseteq># mset (active_ms s)"
proof -
  from assms(1) have "held_by cfg (active_ids s) \<subseteq># mset (active_ms s)"
  proof (rule observation_preserves)
    fix s0 n0
    assume r: "register_active cfg (initial cfg) pre_active_jobs = Inr (s0, n0)"
    have e: "held_by cfg (active_ids (initial cfg)) \<subseteq># mset (active_ms (initial cfg))"
      by (simp add: initial_def held_by_def)
    show "held_by cfg (active_ids s0) \<subseteq># mset (active_ms s0)"
    proof (cases "\<exists>a as. pre_active_jobs = Some (a # as)")
      case False
      with r have "s0 = initial cfg"
        by (auto simp: register_active_def split: option.splits list.splits)
      with e show ?thesis by simp
    next
      case True
      then obtain a as where p: "pre_active_jobs = Some (a # as)" by blast
      with r have "register_each cfg (initial cfg) (a # as) = Inr s0"
        by (auto simp: register_active_def split: sum.splits)
      then show ?thesis using e by (rule register_each_covers)
    qed
  next
    fix ev t a t'
    assume o: "held_by cfg (active_ids t) \<subseteq># mset (active_ms t)"
      and st: "scan_completed_step cfg ev t a = Inr t'"
    from st o show "held_by cfg (active_ids t') \<subseteq># mset (active_ms t')"
      by (rule scan_completed_step_covers)
  next
    fix ev t a t'
    assume o: "held_by cfg (active_ids t) \<subseteq># mset (active_ms t)"
      and st: "scan_start_step cfg ev t a = Inr t'"
    from st o show "held_by cfg (active_ids t') \<subseteq># mset (active_ms t')"
      by (rule scan_start_step_covers)
  qed
  with held_by_member [OF assms(2), of cfg] show ?thesis
    by (rule subset_mset.order_trans)
qed

subsection \<open>A status file is found (C5)\<close>

text \<open>
  C5. Let the first loop find a \<open>COMPLETED\<close> or a \<open>FAILED\<close> file for an id of
  \<open>remaining_array_ids\<close> whose component is in neither \<open>completed_srcs\<close> nor \<open>failed_srcs\<close>.
  If the id is active, with its measurement sets \<open>tgt_ms\<close> in \<open>active_ms\<close>, the id leaves
  \<open>active_ids\<close> and \<open>active_ms\<close> loses one entry for each element of \<open>tgt_ms\<close> and nothing
  else; if it is not active, \<open>active_ids\<close> and \<open>active_ms\<close> stay as they are. In both
  cases the id leaves \<open>remaining_array_ids\<close> and the component's name joins
  \<open>completed_srcs\<close>, or \<open>failed_srcs\<close> when only the \<open>FAILED\<close> file is there.
\<close>

theorem detected_marker_retires:
  assumes "list_index (targets cfg) (array_id - 1) = Inr comp_name"
    and "comp_name |\<notin>| completed_srcs s" and "comp_name |\<notin>| failed_srcs s"
    and "completed_file ev array_id \<or> failed_file ev array_id"
    and "array_id \<in> set (remaining_array_ids s)"
    and "array_id |\<in>| active_ids s \<Longrightarrow> dict_lookup (src_beam_map cfg) comp_name = Inr tgt_ms"
    and "array_id |\<in>| active_ids s \<Longrightarrow> mset_set (fset tgt_ms) \<subseteq># mset (active_ms s)"
  shows "\<exists>s'. scan_completed_step cfg ev s array_id = Inr s'
    \<and> (if array_id |\<in>| active_ids s
        then active_ids s' = active_ids s |-| {|array_id|}
           \<and> mset (active_ms s') = mset (active_ms s) - mset_set (fset tgt_ms)
        else active_ids s' = active_ids s \<and> active_ms s' = active_ms s)
    \<and> remaining_array_ids s' = remove1 array_id (remaining_array_ids s)
    \<and> (if completed_file ev array_id
        then completed_srcs s' = finsert comp_name (completed_srcs s)
           \<and> failed_srcs s' = failed_srcs s
        else completed_srcs s' = completed_srcs s
           \<and> failed_srcs s' = finsert comp_name (failed_srcs s))"
proof (cases "array_id |\<in>| active_ids s")
  case True
  from release_active [OF True assms(6) [OF True] assms(7) [OF True]] obtain held'
    where r: "release cfg s array_id comp_name
               = Inr (s\<lparr>active_ids := active_ids s |-| {|array_id|}, active_ms := held'\<rparr>)"
      and h: "mset held' = mset (active_ms s) - mset_set (fset tgt_ms)"
    by blast
  from scan_completed_step_detected [OF assms(1-5) r] True h show ?thesis
    by (simp add: retire_def)
next
  case False
  then have r: "release cfg s array_id comp_name = Inr s" by (simp add: release_def)
  from scan_completed_step_detected [OF assms(1-5) r] False show ?thesis
    by (simp add: retire_def)
qed

text \<open>
  Job 1 active with \<open>1.COMPLETED\<close> present; job 2 not active with \<open>2.FAILED\<close> present.
\<close>

theorem detected_marker_retires_witness:
  "(\<exists>s'. scan_completed_step abc a_completed a_running 1 = Inr s'
      \<and> active_ids s' = {||} \<and> mset (active_ms s') = {#}
      \<and> remaining_array_ids s' = [2, 3]
      \<and> completed_srcs s' = {|''A''|} \<and> failed_srcs s' = {||})
   \<and> (\<exists>s'. scan_completed_step abc b_failed a_running 2 = Inr s'
      \<and> active_ids s' = {|1|} \<and> active_ms s' = [1]
      \<and> remaining_array_ids s' = [1, 3]
      \<and> completed_srcs s' = {||} \<and> failed_srcs s' = {|''B''|})"
proof -
  have a1: "list_index (targets abc) (1 - 1) = Inr ''A''"
    and a2: "''A'' |\<notin>| completed_srcs a_running" and a3: "''A'' |\<notin>| failed_srcs a_running"
    and a4: "completed_file a_completed 1 \<or> failed_file a_completed 1"
    and a5: "1 \<in> set (remaining_array_ids a_running)"
    and a6: "dict_lookup (src_beam_map abc) ''A'' = Inr {|1|}"
    and a7: "mset_set (fset {|1::nat|}) \<subseteq># mset (active_ms a_running)"
    by (simp_all add: example_defs eval_defs)
  have b1: "list_index (targets abc) (2 - 1) = Inr ''B''"
    and b2: "''B'' |\<notin>| completed_srcs a_running" and b3: "''B'' |\<notin>| failed_srcs a_running"
    and b4: "completed_file b_failed 2 \<or> failed_file b_failed 2"
    and b5: "2 \<in> set (remaining_array_ids a_running)"
    and b6: "2 |\<in>| active_ids a_running \<Longrightarrow> dict_lookup (src_beam_map abc) ''B'' = Inr {|1|}"
    and b7: "2 |\<in>| active_ids a_running \<Longrightarrow> mset_set (fset {|1::nat|}) \<subseteq># mset (active_ms a_running)"
    by (simp_all add: example_defs eval_defs)
  from detected_marker_retires [OF a1 a2 a3 a4 a5 a6 a7]
  have "\<exists>s'. scan_completed_step abc a_completed a_running 1 = Inr s'
      \<and> active_ids s' = {||} \<and> mset (active_ms s') = {#}
      \<and> remaining_array_ids s' = [2, 3]
      \<and> completed_srcs s' = {|''A''|} \<and> failed_srcs s' = {||}"
    by (simp add: example_defs)
  moreover from detected_marker_retires [OF b1 b2 b3 b4 b5 b6 b7]
  have "\<exists>s'. scan_completed_step abc b_failed a_running 2 = Inr s'
      \<and> active_ids s' = {|1|} \<and> active_ms s' = [1]
      \<and> remaining_array_ids s' = [1, 3]
      \<and> completed_srcs s' = {||} \<and> failed_srcs s' = {|''B''|}"
    by (simp add: example_defs)
  ultimately show ?thesis by blast
qed

subsection \<open>Releases come before admissions (C6)\<close>

lemma scan_start_frame:
  assumes "scan_start cfg ev s ids = Inr s'"
  shows "remaining_array_ids s' = remaining_array_ids s
    \<and> completed_srcs s' = completed_srcs s
    \<and> failed_srcs s' = failed_srcs s
    \<and> active_ids s |\<subseteq>| active_ids s'
    \<and> (\<exists>added. active_ms s' = active_ms s @ added)"
  using assms
proof (induction ids arbitrary: s)
  case Nil
  then show ?case by simp
next
  case (Cons array_id rest)
  from Cons.prems obtain t where st: "scan_start_step cfg ev s array_id = Inr t"
    and sc: "scan_start cfg ev t rest = Inr s'"
    by (cases "scan_start_step cfg ev s array_id") simp_all
  from scan_start_step_frame [OF st] obtain added1 where
    a: "remaining_array_ids t = remaining_array_ids s" "completed_srcs t = completed_srcs s"
      "failed_srcs t = failed_srcs s" "active_ids s |\<subseteq>| active_ids t"
      "active_ms t = active_ms s @ added1"
    by blast
  from Cons.IH [OF sc] obtain added2 where
    b: "remaining_array_ids s' = remaining_array_ids t" "completed_srcs s' = completed_srcs t"
      "failed_srcs s' = failed_srcs t" "active_ids t |\<subseteq>| active_ids s'"
      "active_ms s' = active_ms t @ added2"
    by blast
  from a b have "active_ms s' = active_ms s @ (added1 @ added2)" by simp
  with a b show ?case by (metis order_trans)
qed

lemma scan_completed_releases:
  assumes "scan_completed cfg ev s ids = Inr s'"
  shows "active_ids s' |\<subseteq>| active_ids s \<and> mset (active_ms s') \<subseteq># mset (active_ms s)"
  using assms
proof (induction ids arbitrary: s)
  case Nil
  then show ?case by simp
next
  case (Cons array_id rest)
  from Cons.prems obtain t where st: "scan_completed_step cfg ev s array_id = Inr t"
    and sc: "scan_completed cfg ev t rest = Inr s'"
    by (cases "scan_completed_step cfg ev s array_id") simp_all
  from scan_completed_step_active [OF st] scan_completed_step_held [OF st] Cons.IH [OF sc]
  show ?case by (meson order_trans subset_mset.order_trans)
qed

text \<open>
  C6. A call of \<open>job_loop\<close> that returns is the first loop run to its end, which only
  takes ids out of \<open>active_ids\<close> and entries out of \<open>active_ms\<close>, followed by the second
  loop, started in the state the first one left, which only adds to both and changes
  nothing else. Every release of the cycle is therefore done before the first decision
  to start a job is taken.
\<close>

theorem releases_precede_admissions:
  assumes "job_loop cfg ev s = Inr (s', n)"
  shows "\<exists>s1. scan_completed cfg ev s (remaining_array_ids s) = Inr s1
    \<and> scan_start cfg ev s1 (remaining_array_ids s1) = Inr s'
    \<and> active_ids s1 |\<subseteq>| active_ids s
    \<and> mset (active_ms s1) \<subseteq># mset (active_ms s)
    \<and> active_ids s1 |\<subseteq>| active_ids s'
    \<and> (\<exists>added. active_ms s' = active_ms s1 @ added)
    \<and> remaining_array_ids s' = remaining_array_ids s1
    \<and> completed_srcs s' = completed_srcs s1
    \<and> failed_srcs s' = failed_srcs s1"
proof -
  from assms obtain s1 where a: "scan_completed cfg ev s (remaining_array_ids s) = Inr s1"
    and b: "scan_start cfg ev s1 (remaining_array_ids s1) = Inr s'"
    by (rule job_loop_Inr)
  from scan_completed_releases [OF a] scan_start_frame [OF b] a b show ?thesis
    by blast
qed

text \<open>
  With room for one job only: job 1 holds measurement set 1 and its \<open>COMPLETED\<close> file is
  there; in the same call job 2 is started on measurement set 1.
\<close>

theorem releases_precede_admissions_witness:
  "job_loop one_at_a_time a_completed a_running = Inr (b_running, 1)
   \<and> 1 |\<in>| active_ids a_running \<and> 1 \<in> set (active_ms a_running)
   \<and> active_ids b_running = {|2|} \<and> active_ms b_running = [1]
   \<and> (\<exists>s1. scan_completed one_at_a_time a_completed a_running (remaining_array_ids a_running) = Inr s1
        \<and> scan_start one_at_a_time a_completed s1 (remaining_array_ids s1) = Inr b_running
        \<and> active_ids s1 |\<subseteq>| active_ids a_running
        \<and> mset (active_ms s1) \<subseteq># mset (active_ms a_running)
        \<and> active_ids s1 |\<subseteq>| active_ids b_running
        \<and> (\<exists>added. active_ms b_running = active_ms s1 @ added)
        \<and> remaining_array_ids b_running = remaining_array_ids s1
        \<and> completed_srcs b_running = completed_srcs s1
        \<and> failed_srcs b_running = failed_srcs s1)"
proof -
  have "1 |\<in>| active_ids a_running \<and> 1 \<in> set (active_ms a_running)
   \<and> active_ids b_running = {|2|} \<and> active_ms b_running = [1]"
    by (simp add: a_running_def b_running_def)
  with releases_precede_admissions [OF reuse_loop] reuse_loop show ?thesis by blast
qed

subsection \<open>The bound on the number of loops (C7)\<close>

text \<open>
  \<open>while_loop\<close> is a total function: its termination proof is the measure
  \<open>max_loops - i\<close>. What it returns is an observation point, reached after at most
  \<open>max_loops\<close> loops.
\<close>

lemma while_loop_count:
  "while_loop cfg envs delay max_loops i tc s = Inr (s', k, t)
   \<Longrightarrow> i \<le> k \<and> k \<le> max i max_loops
      \<and> (length (remaining_array_ids s') > 0 \<longrightarrow> k = max i max_loops)"
proof (induction cfg envs delay max_loops i tc s rule: while_loop.induct)
  case (1 cfg envs delay max_loops i tc s)
  show ?case
  proof (cases "length (remaining_array_ids s) > 0 \<and> i < max_loops")
    case False
    with "1.prems" have "s' = s" and "k = i"
      by (auto simp add: while_loop.simps [of cfg envs delay max_loops i tc s] split: if_splits)
    with False show ?thesis by auto
  next
    case True
    with "1.prems" obtain u n where j: "job_loop cfg (envs (i + 1)) s = Inr (u, n)"
      and sl: "(if length (remaining_array_ids u) > 0 then sleep (envs (i + 1)) delay
                else Inr ()) = Inr ()"
      and w: "while_loop cfg envs delay max_loops (i + 1) (tc + n) u = Inr (s', k, t)"
      by (auto simp add: while_loop.simps [of cfg envs delay max_loops i tc s]
          split: sum.splits)
    from "1.IH" [OF True j refl sl w] True show ?thesis by auto
  qed
qed

lemma while_loop_observation:
  "while_loop cfg envs delay max_loops i tc s = Inr (s', k, t)
   \<Longrightarrow> observation cfg envs delay pre max_loops i s
   \<Longrightarrow> i = 0 \<or> length (remaining_array_ids s) = 0 \<or> sleep (envs i) delay = Inr ()
   \<Longrightarrow> observation cfg envs delay pre max_loops k s'"
proof (induction cfg envs delay max_loops i tc s rule: while_loop.induct)
  case (1 cfg envs delay max_loops i tc s)
  show ?case
  proof (cases "length (remaining_array_ids s) > 0 \<and> i < max_loops")
    case False
    with "1.prems"(1) have "s' = s" and "k = i"
      by (auto simp add: while_loop.simps [of cfg envs delay max_loops i tc s] split: if_splits)
    with "1.prems"(2) show ?thesis by simp
  next
    case True
    with "1.prems"(1) obtain u n where j: "job_loop cfg (envs (i + 1)) s = Inr (u, n)"
      and sl: "(if length (remaining_array_ids u) > 0 then sleep (envs (i + 1)) delay
                else Inr ()) = Inr ()"
      and w: "while_loop cfg envs delay max_loops (i + 1) (tc + n) u = Inr (s', k, t)"
      by (auto simp add: while_loop.simps [of cfg envs delay max_loops i tc s]
          split: sum.splits)
    from "1.prems"(3) True have "i = 0 \<or> sleep (envs i) delay = Inr ()" by auto
    with "1.prems"(2) have o: "observation cfg envs delay pre max_loops (i + 1) u"
      using True j by (auto intro: looped)
    from sl have "i + 1 = 0 \<or> length (remaining_array_ids u) = 0
        \<or> sleep (envs (i + 1)) delay = Inr ()"
      by (auto split: if_splits)
    from "1.IH" [OF True j refl sl w o this] show ?thesis .
  qed
qed

text \<open>
  A run passes through each of its observation points: what \<open>while_loop\<close> returns from
  the start is what the \<open>sleep\<close> after the observed loop raises, or else what
  \<open>while_loop\<close> returns from the observation point.
\<close>

lemma while_loop_through:
  assumes "register_active cfg (initial cfg) pre = Inr (s0, n0)"
    and "observation cfg envs delay pre max_loops i s"
  shows "\<exists>tc. while_loop cfg envs delay max_loops 0 n0 s0
           = (case (if i = 0 \<or> length (remaining_array_ids s) = 0 then Inr ()
                    else sleep (envs i) delay) of
                Inl e \<Rightarrow> Inl e
              | Inr u \<Rightarrow> while_loop cfg envs delay max_loops i tc s)"
  using assms(2)
proof (induction rule: observation.induct)
  case (registered t0 m0)
  with assms(1) have "t0 = s0" by simp
  then show ?case by (intro exI [of _ n0]) simp
next
  case (looped i s s' n)
  from looped.hyps(2,3)
  have slept: "(if i = 0 \<or> length (remaining_array_ids s) = 0 then Inr ()
                else sleep (envs i) delay) = Inr ()"
    by auto
  from looped.IH obtain tc
    where "while_loop cfg envs delay max_loops 0 n0 s0
             = (case (if i = 0 \<or> length (remaining_array_ids s) = 0 then Inr ()
                      else sleep (envs i) delay) of
                  Inl e \<Rightarrow> Inl e
                | Inr u \<Rightarrow> while_loop cfg envs delay max_loops i tc s)"
    by blast
  then have w: "while_loop cfg envs delay max_loops 0 n0 s0
                 = while_loop cfg envs delay max_loops i tc s"
    by (simp only: slept sum.case)
  have "0 \<le> i" using looped.hyps(1) by (rule observation_count [THEN conjunct1])
  then have nz: "i + 1 \<noteq> 0" by simp
  from looped.hyps(3,4,5)
  have "while_loop cfg envs delay max_loops i tc s
         = (case (if length (remaining_array_ids s') > 0 then sleep (envs (i + 1)) delay
                  else Inr ()) of
              Inl e \<Rightarrow> Inl e
            | Inr u \<Rightarrow> while_loop cfg envs delay max_loops (i + 1) (tc + n) s')"
    by (simp add: while_loop.simps [of cfg envs delay max_loops i tc s])
  with w nz show ?case
    by (intro exI [of _ "tc + n"]) (simp split: if_splits)
qed

lemma sleep_raises_first:
  assumes "observation cfg envs delay pre_active_jobs max_loops i s"
    and "length (remaining_array_ids s) > 0" and "0 < i"
    and "sleep (envs i) delay = Inl e"
  shows "produce_all_cutouts cfg envs delay pre_active_jobs max_loops = Inl e"
proof -
  from assms(1) obtain s0 n0
    where r: "register_active cfg (initial cfg) pre_active_jobs = Inr (s0, n0)"
    by (induction rule: observation.induct) auto
  from while_loop_through [OF r assms(1)] assms(2,3,4)
  have "while_loop cfg envs delay max_loops 0 n0 s0 = Inl e" by auto
  with r show ?thesis by (simp add: produce_all_cutouts_def)
qed

text \<open>
  Line 222 sleeps after every loop that leaves ids, the last one included, and only
  then is the loop count compared with \<open>max_loops\<close>. With \<open>max_loops = 1\<close> and a delay of
  \<open>-1\<close>, ids remain after the one loop, \<open>time.sleep\<close> raises \<open>ValueError\<close>, and line 228
  is not reached.
\<close>

theorem last_sleep_raises_instead:
  "observation two_at_most always_quiet (- 1) None 1 1 ab_running
   \<and> length (remaining_array_ids ab_running) = 3
   \<and> produce_all_cutouts two_at_most always_quiet (- 1) None 1 = Inl ValueError
   \<and> produce_all_cutouts two_at_most always_quiet (- 1) None 1 \<noteq> Inl (FailedToComplete 1 3)"
proof -
  have "produce_all_cutouts two_at_most always_quiet (- 1) None 1 = Inl ValueError"
    by (simp add: produce_all_cutouts_def no_pre_active one_loop_then_sleep_raises)
  moreover have "length (remaining_array_ids ab_running) = 3" by (simp add: ab_running_def)
  ultimately show ?thesis using first_observation_before_sleep by simp
qed

text \<open>The same with a delay too long for the time type.\<close>

lemma too_long_a_sleep:
  "produce_all_cutouts two_at_most always_quiet 10000000000 None 1 = Inl OverflowError"
  by (simp add: produce_all_cutouts_def no_pre_active one_loop_then_sleep_overflows)

text \<open>
  C7, amended. No observation point has a loop count above \<open>max_loops\<close> (above 0 when
  \<open>max_loops\<close> is negative). When ids remain at an observation point whose loop count has
  reached \<open>max_loops\<close>, and the \<open>sleep\<close> that follows that loop returns, the run ends with
  the exception of line 228, which carries the loop count and the number of remaining
  ids. (At loop count 0 there is no such sleep.)
\<close>

theorem loop_budget:
  assumes "observation cfg envs delay pre_active_jobs max_loops i s"
  shows "i \<le> max 0 max_loops
    \<and> (length (remaining_array_ids s) > 0 \<and> max_loops \<le> i
         \<and> (i = 0 \<or> sleep (envs i) delay = Inr ()) \<longrightarrow>
         produce_all_cutouts cfg envs delay pre_active_jobs max_loops
           = Inl (FailedToComplete i (length (remaining_array_ids s))))"
proof (intro conjI impI)
  from assms show "i \<le> max 0 max_loops" by (rule observation_count [THEN conjunct2])
next
  assume a: "length (remaining_array_ids s) > 0 \<and> max_loops \<le> i
    \<and> (i = 0 \<or> sleep (envs i) delay = Inr ())"
  from assms obtain s0 n0 where r: "register_active cfg (initial cfg) pre_active_jobs = Inr (s0, n0)"
    by (induction rule: observation.induct) auto
  from a have slept: "(if i = 0 \<or> length (remaining_array_ids s) = 0 then Inr ()
                        else sleep (envs i) delay) = Inr ()"
    by auto
  from while_loop_through [OF r assms] obtain tc
    where "while_loop cfg envs delay max_loops 0 n0 s0
             = (case (if i = 0 \<or> length (remaining_array_ids s) = 0 then Inr ()
                      else sleep (envs i) delay) of
                  Inl e \<Rightarrow> Inl e
                | Inr u \<Rightarrow> while_loop cfg envs delay max_loops i tc s)"
    by blast
  then have "while_loop cfg envs delay max_loops 0 n0 s0
              = while_loop cfg envs delay max_loops i tc s"
    by (simp only: slept sum.case)
  also from a have "\<dots> = Inr (s, i, tc)"
    by (simp add: while_loop.simps [of cfg envs delay max_loops i tc s])
  finally show "produce_all_cutouts cfg envs delay pre_active_jobs max_loops
           = Inl (FailedToComplete i (length (remaining_array_ids s)))"
    using r a by (simp add: produce_all_cutouts_def)
qed

text \<open>Nothing completes and \<open>max_loops = 2\<close>: two loops, three ids left.\<close>

theorem loop_budget_witness:
  "observation two_at_most always_quiet 30 None 2 2 ab_running
   \<and> (2 :: int) \<le> max 0 2
   \<and> length (remaining_array_ids ab_running) > 0 \<and> (2 :: int) \<le> 2
   \<and> sleep (always_quiet 2) 30 = Inr ()
   \<and> produce_all_cutouts two_at_most always_quiet 30 None 2 = Inl (FailedToComplete 2 3)"
proof -
  have r: "length (remaining_array_ids ab_running) = 3" by (simp add: ab_running_def)
  have sl: "sleep (always_quiet 2) 30 = Inr ()" by (simp add: always_quiet_def quiet_sleeps)
  have "observation two_at_most always_quiet 30 None 2 0 (initial two_at_most)"
    using no_pre_active by (rule registered)
  with two_loops have o: "observation two_at_most always_quiet 30 None 2 2 ab_running"
    by (rule while_loop_observation) simp
  from loop_budget [OF o] r o sl show ?thesis by simp
qed

subsection \<open>The empty catalog (C8)\<close>

text \<open>
  C8. A catalog without components should run to the end without an error. In the code
  the loop is not entered, the loop count stays 0, and the closing message divides
  \<open>total_concurrency\<close> by it: the run raises \<open>ZeroDivisionError\<close> (and \<open>IndexError\<close> before
  that when jobs are given as already active).
\<close>

theorem empty_catalog_raises:
  "produce_all_cutouts (cfg\<lparr>targets := []\<rparr>) envs delay pre_active_jobs max_loops
     = Inl (if pre_active_jobs = None \<or> pre_active_jobs = Some [] then ZeroDivisionError
            else IndexError)"
  by (auto simp add: produce_all_cutouts_def register_active_def initial_def while_loop.simps
      component_ms_def list_index_def split: option.splits list.splits)

subsection \<open>register\_active (C9)\<close>

lemma component_ms_limits [simp]:
  "component_ms (cfg\<lparr>concurrency_limit := c, min_concurrency_limit := m\<rparr>) array_id
     = component_ms cfg array_id"
  by (simp add: component_ms_def split: sum.splits)

lemma register_each_limits [simp]:
  "register_each (cfg\<lparr>concurrency_limit := c, min_concurrency_limit := m\<rparr>) s ids
     = register_each cfg s ids"
  by (induction ids arbitrary: s) (simp_all split: sum.splits)

lemma component_ms_found:
  assumes "1 \<le> array_id" and "array_id \<le> int (length (targets cfg))"
    and "src_beam_map cfg (targets cfg ! nat (array_id - 1)) = Some tgt_ms"
  shows "component_ms cfg array_id = Inr tgt_ms"
  using assms by (simp add: component_ms_def list_index_def dict_lookup_def)

lemma register_each_counts:
  assumes "distinct ids"
    and "\<forall>array_id \<in> set ids. array_id |\<notin>| active_ids s"
    and "\<forall>array_id \<in> set ids. component_ms cfg array_id = Inr (tgt_ms array_id)"
  shows "\<exists>s'. register_each cfg s ids = Inr s'
    \<and> active_ids s' = active_ids s |\<union>| fset_of_list ids
    \<and> fcard (active_ids s') = fcard (active_ids s) + length ids
    \<and> length (active_ms s') = length (active_ms s) + (\<Sum>array_id\<leftarrow>ids. fcard (tgt_ms array_id))
    \<and> mset (active_ms s')
        = mset (active_ms s) + (\<Sum>array_id\<leftarrow>ids. mset_set (fset (tgt_ms array_id)))"
  using assms
proof (induction ids arbitrary: s)
  case Nil
  then show ?case by simp
next
  case (Cons a rest)
  let ?t = "add_job a (tgt_ms a) s"
  from Cons.prems have c: "component_ms cfg a = Inr (tgt_ms a)" and n: "a |\<notin>| active_ids s"
    by simp_all
  from Cons.prems have "distinct rest" and "\<forall>b \<in> set rest. b |\<notin>| active_ids ?t"
    and "\<forall>b \<in> set rest. component_ms cfg b = Inr (tgt_ms b)"
    by (auto simp: add_job_def)
  from Cons.IH [OF this] obtain s' where r: "register_each cfg ?t rest = Inr s'"
    and a: "active_ids s' = active_ids ?t |\<union>| fset_of_list rest"
    and f: "fcard (active_ids s') = fcard (active_ids ?t) + length rest"
    and l: "length (active_ms s') = length (active_ms ?t) + (\<Sum>b\<leftarrow>rest. fcard (tgt_ms b))"
    and m: "mset (active_ms s')
             = mset (active_ms ?t) + (\<Sum>b\<leftarrow>rest. mset_set (fset (tgt_ms b)))"
    by blast
  have "register_each cfg s (a # rest) = Inr s'" using c r by simp
  moreover have "active_ids s' = active_ids s |\<union>| fset_of_list (a # rest)"
    using a by (simp add: add_job_def)
  moreover have "fcard (active_ids s') = fcard (active_ids s) + length (a # rest)"
    using f n by (simp add: fcard_add_job)
  moreover have "length (active_ms s')
      = length (active_ms s) + (\<Sum>b\<leftarrow>a # rest. fcard (tgt_ms b))"
    using l by (simp add: add_job_def length_sorted_list_of_fset)
  moreover have "mset (active_ms s')
      = mset (active_ms s) + (\<Sum>b\<leftarrow>a # rest. mset_set (fset (tgt_ms b)))"
    using m by (simp add: add_job_def mset_sorted_list_of_fset)
  ultimately show ?case by blast
qed

lemma register_active_Some:
  "ids \<noteq> [] \<Longrightarrow> register_active cfg s (Some ids)
     = (case register_each cfg s ids of
          Inl e \<Rightarrow> Inl e
        | Inr s' \<Rightarrow> Inr (s', int (fcard (active_ids s'))))"
  by (cases ids) (simp_all add: register_active_def)

lemma register_13_abc:
  "register_active abc (initial abc) (Some [1, 3]) = Inr (ac_registered, 2)"
  by (simp add: register_active_def initial_def abc_def ac_registered_def component_ms_def
      list_index_def dict_lookup_def add_job_def upto.simps fcard_finsert_if fcard_fempty
      sorted_list_of_fset.rep_eq finsert_commute)

text \<open>
  C9. Let \<open>ids\<close> be \<open>n\<close> different ids between 1 and the number of targets, and let
  \<open>src_beam_map\<close> give the set \<open>tgt_ms array_id\<close> for the target of each. From the initial
  state, \<open>register_active\<close> makes exactly these \<open>n\<close> ids active, appends to \<open>active_ms\<close>
  the elements of their sets, as many entries as the sets have elements together, and
  returns \<open>n\<close>, the number of active ids. The sets need not even be disjoint, and the
  two limits play no part: the result is the same for any values of them.
\<close>

theorem register_active_counts:
  assumes "distinct ids"
    and "\<forall>array_id \<in> set ids. 1 \<le> array_id \<and> array_id \<le> int (length (targets cfg))
           \<and> src_beam_map cfg (targets cfg ! nat (array_id - 1)) = Some (tgt_ms array_id)"
  shows "\<exists>s'. register_active cfg (initial cfg) (Some ids) = Inr (s', int (length ids))
    \<and> active_ids s' = fset_of_list ids
    \<and> fcard (active_ids s') = length ids
    \<and> length (active_ms s') = (\<Sum>array_id\<leftarrow>ids. fcard (tgt_ms array_id))
    \<and> mset (active_ms s') = (\<Sum>array_id\<leftarrow>ids. mset_set (fset (tgt_ms array_id)))
    \<and> register_active (cfg\<lparr>concurrency_limit := c, min_concurrency_limit := m\<rparr>)
         (initial cfg) (Some ids) = Inr (s', int (length ids))"
proof (cases "ids = []")
  case True
  then show ?thesis by (simp add: register_active_def initial_def fcard_fempty)
next
  case False
  have none: "\<forall>array_id \<in> set ids. array_id |\<notin>| active_ids (initial cfg)"
    by (simp add: initial_def)
  from assms(2) have found: "\<forall>array_id \<in> set ids. component_ms cfg array_id = Inr (tgt_ms array_id)"
    by (auto intro: component_ms_found)
  from register_each_counts [OF assms(1) none found] obtain s'
    where r: "register_each cfg (initial cfg) ids = Inr s'"
      and a: "active_ids s' = active_ids (initial cfg) |\<union>| fset_of_list ids"
      and f: "fcard (active_ids s') = fcard (active_ids (initial cfg)) + length ids"
      and l: "length (active_ms s') = length (active_ms (initial cfg))
                + (\<Sum>array_id\<leftarrow>ids. fcard (tgt_ms array_id))"
      and ms: "mset (active_ms s') = mset (active_ms (initial cfg))
                + (\<Sum>array_id\<leftarrow>ids. mset_set (fset (tgt_ms array_id)))"
    by blast
  have n: "fcard (active_ids s') = length ids" using f by (simp add: initial_def fcard_fempty)
  have "register_active cfg (initial cfg) (Some ids) = Inr (s', int (length ids))"
    using r n by (simp add: register_active_Some [OF False])
  moreover have "register_active (cfg\<lparr>concurrency_limit := c, min_concurrency_limit := m\<rparr>)
      (initial cfg) (Some ids) = Inr (s', int (length ids))"
    using r n by (simp add: register_active_Some [OF False])
  moreover have "active_ids s' = fset_of_list ids" using a by (simp add: initial_def)
  moreover have "length (active_ms s') = (\<Sum>array_id\<leftarrow>ids. fcard (tgt_ms array_id))"
    using l by (simp add: initial_def)
  moreover have "mset (active_ms s') = (\<Sum>array_id\<leftarrow>ids. mset_set (fset (tgt_ms array_id)))"
    using ms by (simp add: initial_def)
  ultimately show ?thesis using n by blast
qed

text \<open>
  Jobs 1 and 3 of the example, whose components \<open>A\<close> and \<open>C\<close> have the measurement sets
  \<open>{1}\<close> and \<open>{2}\<close>: two ids active, two entries in \<open>active_ms\<close>, namely 1 and 2, and 2
  returned, although the second configuration allows one job only.
\<close>

theorem register_active_counts_witness:
  "\<exists>s'. register_active abc (initial abc) (Some [1, 3]) = Inr (s', 2)
     \<and> s' = ac_registered
     \<and> active_ids s' = {|1, 3|}
     \<and> fcard (active_ids s') = 2
     \<and> length (active_ms s') = 2
     \<and> mset (active_ms s') = {#1, 2#}
     \<and> register_active (abc\<lparr>concurrency_limit := 1, min_concurrency_limit := 0\<rparr>)
          (initial abc) (Some [1, 3]) = Inr (s', 2)"
proof -
  have h1: "distinct [1, 3 :: int]" by simp
  have h2: "\<forall>array_id \<in> set [1, 3]. 1 \<le> array_id \<and> array_id \<le> int (length (targets abc))
           \<and> src_beam_map abc (targets abc ! nat (array_id - 1))
               = Some (if array_id = 1 then {|1 :: nat|} else {|2|})"
    by (simp add: abc_def)
  from register_active_counts [OF h1 h2, where c = 1 and m = 0] obtain s'
    where r: "register_active abc (initial abc) (Some [1, 3]) = Inr (s', int (length [1, 3 :: int]))"
      and a: "active_ids s' = fset_of_list [1, 3]"
      and f: "fcard (active_ids s') = length [1, 3 :: int]"
      and l: "length (active_ms s')
               = (\<Sum>array_id\<leftarrow>[1, 3 :: int]. fcard (if array_id = 1 then {|1 :: nat|} else {|2|}))"
      and m: "mset (active_ms s')
               = (\<Sum>array_id\<leftarrow>[1, 3 :: int]. mset_set (fset (if array_id = 1 then {|1 :: nat|} else {|2|})))"
      and i: "register_active (abc\<lparr>concurrency_limit := 1, min_concurrency_limit := 0\<rparr>)
          (initial abc) (Some [1, 3]) = Inr (s', int (length [1, 3 :: int]))"
    by blast
  from r have r': "register_active abc (initial abc) (Some [1, 3]) = Inr (s', 2)" by simp
  from i have i': "register_active (abc\<lparr>concurrency_limit := 1, min_concurrency_limit := 0\<rparr>)
          (initial abc) (Some [1, 3]) = Inr (s', 2)" by simp
  from a have a': "active_ids s' = {|1, 3|}" by simp
  from f have f': "fcard (active_ids s') = 2" by simp
  from l have l': "length (active_ms s') = 2" by (simp add: fcard_finsert_if fcard_fempty)
  from m have m': "mset (active_ms s') = {#1, 2#}" by simp
  from r' register_13_abc have "s' = ac_registered" by simp
  with r' a' f' l' m' i' show ?thesis by blast
qed

subsection \<open>What the second loop leaves alone (C10)\<close>

text \<open>
  C10. When the second loop returns, \<open>remaining_array_ids\<close>, \<open>completed_srcs\<close> and
  \<open>failed_srcs\<close> are what they were; \<open>active_ids\<close> has at most grown and \<open>active_ms\<close> has
  at most been extended at its end.
\<close>

theorem admission_scan_frame:
  assumes "scan_start cfg ev s ids = Inr s'"
  shows "remaining_array_ids s' = remaining_array_ids s
    \<and> completed_srcs s' = completed_srcs s
    \<and> failed_srcs s' = failed_srcs s
    \<and> active_ids s |\<subseteq>| active_ids s'
    \<and> (\<exists>added. active_ms s' = active_ms s @ added)"
  using assms by (rule scan_start_frame)

theorem admission_scan_frame_witness:
  "scan_start two_at_most quiet a_running [1, 2, 3] = Inr ab_running
   \<and> remaining_array_ids ab_running = remaining_array_ids a_running
   \<and> completed_srcs ab_running = completed_srcs a_running
   \<and> failed_srcs ab_running = failed_srcs a_running
   \<and> active_ids a_running |\<subseteq>| active_ids ab_running
   \<and> (\<exists>added. active_ms ab_running = active_ms a_running @ added)"
  using admission_scan_frame [OF scan_from_a] scan_from_a by simp

end
